theory Spec2Isabelle
  imports Main "HOL-Library.Word" "HOL-Library.Sublist"
begin

section \<open>The singly linked list of single-linked-list.h\<close>

text \<open>
  The container is a pointer structure: nodes made by \<open>new\<close>, linked through raw
  pointers, anchored in a sentinel node \<open>head_\<close> that is a member of the list object.
  Cursors may point at a heap node or at the sentinel of some list object, so both kinds
  of object live in an explicit store and every member function is a function on that
  store.  A member function takes the address \<open>this\<close> of its list object first.

  Undefined behaviour of the source (following a null pointer, using an object that is
  not alive) is a value of type \<open>error\<close>; a loop that need not terminate on a damaged
  store returns \<open>None\<close> when it runs forever.

  Isabelle does not admit names that end in an underscore: the members \<open>head_\<close> and
  \<open>size_\<close> are the fields \<open>head_f\<close> and \<open>size_f\<close>, \<open>FillLinkedList_\<close> is
  \<open>FillLinkedList\<close>, the member \<open>value\<close> of a node is \<open>node_value\<close>, and
  \<open>begin\<close>/\<open>end\<close> are \<open>list_begin\<close>/\<open>list_end\<close>.
\<close>

subsection \<open>Data\<close>

type_synonym addr = nat

text \<open>A \<open>Node *\<close>: null, a node on the free store, or the member \<open>head_\<close> of the list
  object at an address.\<close>

datatype ptr = nullptr | NodeAt addr | HeadOf addr

record 'a Node =
  node_value :: 'a
  next_node :: ptr

text \<open>\<open>size_t\<close> on the 64-bit target: \<open>++size_\<close> and \<open>--size_\<close> wrap.\<close>

type_synonym size_t = "64 word"

record 'a SingleLinkedList =
  head_f :: "'a Node"
  size_f :: size_t

text \<open>
  The store: the nodes on the free store, the list objects that are alive, and the
  allocation frontier \<open>brk\<close>.  Storage is handed out at the frontier, which then moves
  on, so a fresh object never has the address of one that is or was alive.
\<close>

record 'a state =
  nodes :: "addr \<rightharpoonup> 'a Node"
  lists :: "addr \<rightharpoonup> 'a SingleLinkedList"
  brk :: addr

datatype error = NullDeref | Dangling | BadDelete

text \<open>A \<open>BasicIterator\<close> has the one member \<open>node_\<close>; the mutable and the constant
  iterator differ in the type of the reference they give out only.\<close>

type_synonym BasicIterator = ptr

subsection \<open>Access through pointers\<close>

text \<open>Reading the node a pointer refers to (\<open>*p\<close>).\<close>

definition load :: "'a state \<Rightarrow> ptr \<Rightarrow> error + 'a Node" where
  "load s p =
     (case p of
        nullptr \<Rightarrow> Inl NullDeref
      | NodeAt a \<Rightarrow> (case nodes s a of None \<Rightarrow> Inl Dangling | Some n \<Rightarrow> Inr n)
      | HeadOf l \<Rightarrow> (case lists s l of None \<Rightarrow> Inl Dangling | Some L \<Rightarrow> Inr (head_f L)))"

text \<open>The assignment \<open>p->next_node = q\<close>.\<close>

definition store_next :: "ptr \<Rightarrow> ptr \<Rightarrow> 'a state \<Rightarrow> error + 'a state" where
  "store_next p q s =
     (case p of
        nullptr \<Rightarrow> Inl NullDeref
      | NodeAt a \<Rightarrow>
          (case nodes s a of
             None \<Rightarrow> Inl Dangling
           | Some n \<Rightarrow> Inr (s\<lparr>nodes := (nodes s)(a \<mapsto> n\<lparr>next_node := q\<rparr>)\<rparr>))
      | HeadOf l \<Rightarrow>
          (case lists s l of
             None \<Rightarrow> Inl Dangling
           | Some L \<Rightarrow>
               Inr (s\<lparr>lists := (lists s)(l \<mapsto> L\<lparr>head_f := (head_f L)\<lparr>next_node := q\<rparr>\<rparr>)\<rparr>)))"

text \<open>\<open>new Node(val, next)\<close>: the node is built at the frontier, whose old value is the
  pointer that \<open>new\<close> returns.  Allocation failure is not modelled.\<close>

definition new_Node :: "'a \<Rightarrow> ptr \<Rightarrow> 'a state \<Rightarrow> 'a state" where
  "new_Node val nxt s =
     s\<lparr>nodes := (nodes s)(brk s \<mapsto> \<lparr>node_value = val, next_node = nxt\<rparr>), brk := Suc (brk s)\<rparr>"

text \<open>\<open>delete p\<close>: nothing for a null pointer; otherwise \<open>p\<close> must be a live node of the
  free store.\<close>

definition delete_Node :: "ptr \<Rightarrow> 'a state \<Rightarrow> error + 'a state" where
  "delete_Node p s =
     (case p of
        nullptr \<Rightarrow> Inr s
      | NodeAt a \<Rightarrow>
          (case nodes s a of
             None \<Rightarrow> Inl Dangling
           | Some n \<Rightarrow> Inr (s\<lparr>nodes := (nodes s)(a := None)\<rparr>))
      | HeadOf l \<Rightarrow> Inl BadDelete)"

text \<open>\<open>++size_\<close> and \<open>--size_\<close> of the list object at \<open>this\<close>.\<close>

definition inc_size :: "addr \<Rightarrow> 'a state \<Rightarrow> error + 'a state" where
  "inc_size this s =
     (case lists s this of
        None \<Rightarrow> Inl Dangling
      | Some L \<Rightarrow> Inr (s\<lparr>lists := (lists s)(this \<mapsto> L\<lparr>size_f := size_f L + 1\<rparr>)\<rparr>))"

definition dec_size :: "addr \<Rightarrow> 'a state \<Rightarrow> error + 'a state" where
  "dec_size this s =
     (case lists s this of
        None \<Rightarrow> Inl Dangling
      | Some L \<Rightarrow> Inr (s\<lparr>lists := (lists s)(this \<mapsto> L\<lparr>size_f := size_f L - 1\<rparr>)\<rparr>))"

subsection \<open>Iterators\<close>

text \<open>\<open>operator++\<close>: \<open>node_ = node_->next_node\<close>.\<close>

definition it_incr :: "'a state \<Rightarrow> BasicIterator \<Rightarrow> error + BasicIterator" where
  "it_incr s it = (case load s it of Inl e \<Rightarrow> Inl e | Inr n \<Rightarrow> Inr (next_node n))"

text \<open>\<open>operator*\<close>: \<open>node_->value\<close>.\<close>

definition it_deref :: "'a state \<Rightarrow> BasicIterator \<Rightarrow> error + 'a" where
  "it_deref s it = (case load s it of Inl e \<Rightarrow> Inl e | Inr n \<Rightarrow> Inr (node_value n))"

definition list_begin :: "'a state \<Rightarrow> addr \<Rightarrow> error + BasicIterator" where
  "list_begin s this =
     (case lists s this of None \<Rightarrow> Inl Dangling | Some L \<Rightarrow> Inr (next_node (head_f L)))"

definition list_end :: BasicIterator where
  "list_end = nullptr"

definition before_begin :: "addr \<Rightarrow> BasicIterator" where
  "before_begin this = HeadOf this"

definition cbefore_begin :: "addr \<Rightarrow> BasicIterator" where
  "cbefore_begin this = HeadOf this"

subsection \<open>Member functions without loops\<close>

text \<open>
  Storage for a list object with its members default-initialised: \<open>head_\<close> is
  \<open>Node()\<close>, whose value is whatever the default initialisation of \<open>Type\<close> gives
  (\<open>dflt\<close>) and whose link is null, and \<open>size_\<close> is 0.  The result is the state; the
  object is at the old frontier.
\<close>

definition new_object :: "'a \<Rightarrow> 'a state \<Rightarrow> 'a state" where
  "new_object dflt s =
     s\<lparr>lists := (lists s)(brk s \<mapsto>
          \<lparr>head_f = \<lparr>node_value = dflt, next_node = nullptr\<rparr>, size_f = 0\<rparr>),
       brk := Suc (brk s)\<rparr>"

text \<open>\<open>SingleLinkedList() {}\<close>: the address of the new object and the state.\<close>

definition SingleLinkedList_default :: "'a \<Rightarrow> 'a state \<Rightarrow> addr \<times> 'a state" where
  "SingleLinkedList_default dflt s = (brk s, new_object dflt s)"

text \<open>\<open>swap\<close>: the two \<open>std::swap\<close> calls exchange the sentinels' links and the counts.\<close>

definition swap :: "addr \<Rightarrow> addr \<Rightarrow> 'a state \<Rightarrow> error + 'a state" where
  "swap this other s =
     (case lists s this of
        None \<Rightarrow> Inl Dangling
      | Some L \<Rightarrow>
          (case lists s other of
             None \<Rightarrow> Inl Dangling
           | Some R \<Rightarrow>
               Inr (s\<lparr>lists := (lists s)
                     (this \<mapsto> L\<lparr>head_f := (head_f L)\<lparr>next_node := next_node (head_f R)\<rparr>,
                                size_f := size_f R\<rparr>,
                      other \<mapsto> R\<lparr>head_f := (head_f R)\<lparr>next_node := next_node (head_f L)\<rparr>,
                                 size_f := size_f L\<rparr>)\<rparr>)))"

definition GetSize :: "'a state \<Rightarrow> addr \<Rightarrow> error + size_t" where
  "GetSize s this = (case lists s this of None \<Rightarrow> Inl Dangling | Some L \<Rightarrow> Inr (size_f L))"

definition IsEmpty :: "'a state \<Rightarrow> addr \<Rightarrow> error + bool" where
  "IsEmpty s this = (case lists s this of None \<Rightarrow> Inl Dangling | Some L \<Rightarrow> Inr (size_f L = 0))"

definition PushFront :: "addr \<Rightarrow> 'a \<Rightarrow> 'a state \<Rightarrow> error + 'a state" where
  "PushFront this val s =
     (case load s (HeadOf this) of
        Inl e \<Rightarrow> Inl e
      | Inr h \<Rightarrow>
          (case store_next (HeadOf this) (NodeAt (brk s)) (new_Node val (next_node h) s) of
             Inl e \<Rightarrow> Inl e
           | Inr s1 \<Rightarrow> inc_size this s1))"

text \<open>\<open>InsertAfter\<close> returns the iterator to the new node and the state.\<close>

definition InsertAfter ::
  "addr \<Rightarrow> BasicIterator \<Rightarrow> 'a \<Rightarrow> 'a state \<Rightarrow> error + BasicIterator \<times> 'a state" where
  "InsertAfter this pos val s =
     (case load s pos of
        Inl e \<Rightarrow> Inl e
      | Inr n \<Rightarrow>
          (case store_next pos (NodeAt (brk s)) (new_Node val (next_node n) s) of
             Inl e \<Rightarrow> Inl e
           | Inr s1 \<Rightarrow>
               (case inc_size this s1 of
                  Inl e \<Rightarrow> Inl e
                | Inr s2 \<Rightarrow>
                    (case load s2 pos of
                       Inl e \<Rightarrow> Inl e
                     | Inr n2 \<Rightarrow> Inr (next_node n2, s2)))))"

definition PopFront :: "addr \<Rightarrow> 'a state \<Rightarrow> error + 'a state" where
  "PopFront this s =
     (case load s (HeadOf this) of
        Inl e \<Rightarrow> Inl e
      | Inr h \<Rightarrow>
          (let front = next_node h in
           case load s front of
             Inl e \<Rightarrow> Inl e
           | Inr n \<Rightarrow>
               (case store_next (HeadOf this) (next_node n) s of
                  Inl e \<Rightarrow> Inl e
                | Inr s1 \<Rightarrow>
                    (case delete_Node front s1 of
                       Inl e \<Rightarrow> Inl e
                     | Inr s2 \<Rightarrow> dec_size this s2))))"

definition EraseAfter ::
  "addr \<Rightarrow> BasicIterator \<Rightarrow> 'a state \<Rightarrow> error + BasicIterator \<times> 'a state" where
  "EraseAfter this pos s =
     (case load s pos of
        Inl e \<Rightarrow> Inl e
      | Inr p \<Rightarrow>
          (let node_to_delete = next_node p in
           case load s node_to_delete of
             Inl e \<Rightarrow> Inl e
           | Inr n \<Rightarrow>
               (case store_next pos (next_node n) s of
                  Inl e \<Rightarrow> Inl e
                | Inr s1 \<Rightarrow>
                    (case delete_Node node_to_delete s1 of
                       Inl e \<Rightarrow> Inl e
                     | Inr s2 \<Rightarrow>
                         (case dec_size this s2 of
                            Inl e \<Rightarrow> Inl e
                          | Inr s3 \<Rightarrow>
                              (case load s3 pos of
                                 Inl e \<Rightarrow> Inl e
                               | Inr p3 \<Rightarrow> Inr (next_node p3, s3)))))))"

subsection \<open>Member functions with loops\<close>

text \<open>
  The loop of \<open>Clear\<close>: while the sentinel has a successor, unlink it and delete it.
\<close>

partial_function (option) Clear_loop :: "addr \<Rightarrow> 'a state \<Rightarrow> (error + 'a state) option" where
  "Clear_loop this s =
     (case load s (HeadOf this) of
        Inl e \<Rightarrow> Some (Inl e)
      | Inr h \<Rightarrow>
          if next_node h = nullptr then Some (Inr s)
          else
            (case load s (next_node h) of
               Inl e \<Rightarrow> Some (Inl e)
             | Inr n \<Rightarrow>
                 (case store_next (HeadOf this) (next_node n) s of
                    Inl e \<Rightarrow> Some (Inl e)
                  | Inr s1 \<Rightarrow>
                      (case delete_Node (next_node h) s1 of
                         Inl e \<Rightarrow> Some (Inl e)
                       | Inr s2 \<Rightarrow> Clear_loop this s2))))"

definition Clear :: "addr \<Rightarrow> 'a state \<Rightarrow> (error + 'a state) option" where
  "Clear this s =
     (case Clear_loop this s of
        None \<Rightarrow> None
      | Some (Inl e) \<Rightarrow> Some (Inl e)
      | Some (Inr s1) \<Rightarrow>
          (case lists s1 this of
             None \<Rightarrow> Some (Inl Dangling)
           | Some L \<Rightarrow> Some (Inr (s1\<lparr>lists := (lists s1)(this \<mapsto> L\<lparr>size_f := 0\<rparr>)\<rparr>))))"

text \<open>The destructor runs \<open>Clear\<close>; then the object's lifetime is over.\<close>

definition destroy :: "addr \<Rightarrow> 'a state \<Rightarrow> (error + 'a state) option" where
  "destroy this s =
     (case Clear this s of
        None \<Rightarrow> None
      | Some (Inl e) \<Rightarrow> Some (Inl e)
      | Some (Inr s1) \<Rightarrow> Some (Inr (s1\<lparr>lists := (lists s1)(this := None)\<rparr>)))"

text \<open>
  \<open>FillLinkedList_\<close> is a template over the iterator of the source.  \<open>node_ptr\<close>
  points at the member \<open>next_node\<close> of a node (at first the sentinel of
  \<open>linked_list\<close>); the model keeps the pointer to that node.

  Over a \<open>std::initializer_list\<close>, whose range is the list of its values:
\<close>

fun FillLinkedList_init ::
  "addr \<Rightarrow> ptr \<Rightarrow> 'a list \<Rightarrow> 'a state \<Rightarrow> error + 'a state" where
  "FillLinkedList_init linked_list node_ptr [] s = Inr s"
| "FillLinkedList_init linked_list node_ptr (v # vs) s =
     (case store_next node_ptr (NodeAt (brk s)) (new_Node v nullptr s) of
        Inl e \<Rightarrow> Inl e
      | Inr s1 \<Rightarrow>
          (case inc_size linked_list s1 of
             Inl e \<Rightarrow> Inl e
           | Inr s2 \<Rightarrow> FillLinkedList_init linked_list (NodeAt (brk s)) vs s2))"

text \<open>Over the iterators of another list:\<close>

partial_function (option) FillLinkedList ::
  "addr \<Rightarrow> ptr \<Rightarrow> BasicIterator \<Rightarrow> BasicIterator \<Rightarrow> 'a state \<Rightarrow> (error + 'a state) option"
where
  "FillLinkedList linked_list node_ptr it it_end s =
     (if it = it_end then Some (Inr s)
      else
        (case it_deref s it of
           Inl e \<Rightarrow> Some (Inl e)
         | Inr v \<Rightarrow>
             (case store_next node_ptr (NodeAt (brk s)) (new_Node v nullptr s) of
                Inl e \<Rightarrow> Some (Inl e)
              | Inr s1 \<Rightarrow>
                  (case inc_size linked_list s1 of
                     Inl e \<Rightarrow> Some (Inl e)
                   | Inr s2 \<Rightarrow>
                       (case it_incr s2 it of
                          Inl e \<Rightarrow> Some (Inl e)
                        | Inr it' \<Rightarrow>
                            FillLinkedList linked_list (NodeAt (brk s)) it' it_end s2)))))"

text \<open>
  The two constructors that fill: \<open>this\<close> gets its storage and its default member
  values, the local \<open>linked_list\<close> is constructed, filled and swapped with \<open>this\<close>,
  and destroyed when the constructor returns.  The result is the address of the new
  list and the state.
\<close>

definition SingleLinkedList_init ::
  "'a \<Rightarrow> 'a list \<Rightarrow> 'a state \<Rightarrow> (error + addr \<times> 'a state) option" where
  "SingleLinkedList_init dflt values s =
     (let this = brk s;
          s0 = new_object dflt s;
          linked_list = brk s0;
          s1 = new_object dflt s0
      in case FillLinkedList_init linked_list (HeadOf linked_list) values s1 of
           Inl e \<Rightarrow> Some (Inl e)
         | Inr s2 \<Rightarrow>
             (case swap this linked_list s2 of
                Inl e \<Rightarrow> Some (Inl e)
              | Inr s3 \<Rightarrow>
                  (case destroy linked_list s3 of
                     None \<Rightarrow> None
                   | Some (Inl e) \<Rightarrow> Some (Inl e)
                   | Some (Inr s4) \<Rightarrow> Some (Inr (this, s4)))))"

definition SingleLinkedList_copy ::
  "'a \<Rightarrow> addr \<Rightarrow> 'a state \<Rightarrow> (error + addr \<times> 'a state) option" where
  "SingleLinkedList_copy dflt other s =
     (let this = brk s;
          s0 = new_object dflt s;
          linked_list = brk s0;
          s1 = new_object dflt s0
      in case list_begin s1 other of
           Inl e \<Rightarrow> Some (Inl e)
         | Inr b \<Rightarrow>
             (case FillLinkedList linked_list (HeadOf linked_list) b list_end s1 of
                None \<Rightarrow> None
              | Some (Inl e) \<Rightarrow> Some (Inl e)
              | Some (Inr s2) \<Rightarrow>
                  (case swap this linked_list s2 of
                     Inl e \<Rightarrow> Some (Inl e)
                   | Inr s3 \<Rightarrow>
                       (case destroy linked_list s3 of
                          None \<Rightarrow> None
                        | Some (Inl e) \<Rightarrow> Some (Inl e)
                        | Some (Inr s4) \<Rightarrow> Some (Inr (this, s4))))))"

text \<open>\<open>operator=\<close>: nothing when \<open>this == &rhs\<close>; otherwise the local \<open>copy\<close> is
  constructed from \<open>rhs\<close>, swapped with \<open>this\<close> and destroyed.\<close>

definition assign :: "'a \<Rightarrow> addr \<Rightarrow> addr \<Rightarrow> 'a state \<Rightarrow> (error + 'a state) option" where
  "assign dflt this rhs s =
     (if this = rhs then Some (Inr s)
      else
        (case SingleLinkedList_copy dflt rhs s of
           None \<Rightarrow> None
         | Some (Inl e) \<Rightarrow> Some (Inl e)
         | Some (Inr (copy, s1)) \<Rightarrow>
             (case swap this copy s1 of
                Inl e \<Rightarrow> Some (Inl e)
              | Inr s2 \<Rightarrow> destroy copy s2)))"

subsection \<open>The comparison operators\<close>

text \<open>
  \<open>std::equal\<close> with three iterators and \<open>std::lexicographical_compare\<close> are functions
  of the C++ standard library.  They are modelled by the loops the library runs on
  forward iterators: \<open>std::equal\<close> compares \<open>*first1\<close> with \<open>*first2\<close> until
  \<open>first1\<close> reaches \<open>last1\<close> and stops at the first difference; it is given no end of
  the second range and never looks for one.
\<close>

partial_function (option) std_equal ::
  "'a state \<Rightarrow> BasicIterator \<Rightarrow> BasicIterator \<Rightarrow> BasicIterator \<Rightarrow> (error + bool) option"
where
  "std_equal s first1 last1 first2 =
     (if first1 = last1 then Some (Inr True)
      else
        (case it_deref s first1 of
           Inl e \<Rightarrow> Some (Inl e)
         | Inr x \<Rightarrow>
             (case it_deref s first2 of
                Inl e \<Rightarrow> Some (Inl e)
              | Inr y \<Rightarrow>
                  if x \<noteq> y then Some (Inr False)
                  else
                    (case it_incr s first1 of
                       Inl e \<Rightarrow> Some (Inl e)
                     | Inr next1 \<Rightarrow>
                         (case it_incr s first2 of
                            Inl e \<Rightarrow> Some (Inl e)
                          | Inr next2 \<Rightarrow> std_equal s next1 last1 next2)))))"

partial_function (option) std_lexicographical_compare ::
  "('a::ord) state \<Rightarrow> BasicIterator \<Rightarrow> BasicIterator \<Rightarrow> BasicIterator \<Rightarrow> BasicIterator
     \<Rightarrow> (error + bool) option"
where
  "std_lexicographical_compare s first1 last1 first2 last2 =
     (if first1 \<noteq> last1 \<and> first2 \<noteq> last2 then
        (case it_deref s first1 of
           Inl e \<Rightarrow> Some (Inl e)
         | Inr x \<Rightarrow>
             (case it_deref s first2 of
                Inl e \<Rightarrow> Some (Inl e)
              | Inr y \<Rightarrow>
                  if x < y then Some (Inr True)
                  else if y < x then Some (Inr False)
                  else
                    (case it_incr s first1 of
                       Inl e \<Rightarrow> Some (Inl e)
                     | Inr next1 \<Rightarrow>
                         (case it_incr s first2 of
                            Inl e \<Rightarrow> Some (Inl e)
                          | Inr next2 \<Rightarrow>
                              std_lexicographical_compare s next1 last1 next2 last2))))
      else Some (Inr (first1 = last1 \<and> first2 \<noteq> last2)))"

text \<open>Negation of the result of a comparison that may have failed or not returned.\<close>

definition negate :: "(error + bool) option \<Rightarrow> (error + bool) option" where
  "negate r = (case r of None \<Rightarrow> None | Some (Inl e) \<Rightarrow> Some (Inl e) | Some (Inr b) \<Rightarrow> Some (Inr (\<not> b)))"

definition operator_eq :: "'a state \<Rightarrow> addr \<Rightarrow> addr \<Rightarrow> (error + bool) option" where
  "operator_eq s lhs rhs =
     (case list_begin s lhs of
        Inl e \<Rightarrow> Some (Inl e)
      | Inr b1 \<Rightarrow>
          (case list_begin s rhs of
             Inl e \<Rightarrow> Some (Inl e)
           | Inr b2 \<Rightarrow> std_equal s b1 list_end b2))"

definition operator_ne :: "'a state \<Rightarrow> addr \<Rightarrow> addr \<Rightarrow> (error + bool) option" where
  "operator_ne s lhs rhs = negate (operator_eq s lhs rhs)"

definition operator_lt :: "('a::ord) state \<Rightarrow> addr \<Rightarrow> addr \<Rightarrow> (error + bool) option" where
  "operator_lt s lhs rhs =
     (case list_begin s lhs of
        Inl e \<Rightarrow> Some (Inl e)
      | Inr b1 \<Rightarrow>
          (case list_begin s rhs of
             Inl e \<Rightarrow> Some (Inl e)
           | Inr b2 \<Rightarrow> std_lexicographical_compare s b1 list_end b2 list_end))"

definition operator_gt :: "('a::ord) state \<Rightarrow> addr \<Rightarrow> addr \<Rightarrow> (error + bool) option" where
  "operator_gt s lhs rhs = operator_lt s rhs lhs"

definition operator_le :: "('a::ord) state \<Rightarrow> addr \<Rightarrow> addr \<Rightarrow> (error + bool) option" where
  "operator_le s lhs rhs = negate (operator_gt s lhs rhs)"

definition operator_ge :: "('a::ord) state \<Rightarrow> addr \<Rightarrow> addr \<Rightarrow> (error + bool) option" where
  "operator_ge s lhs rhs = negate (operator_lt s lhs rhs)"

text \<open>
  A traversal as a client writes it,
  \<open>for (auto it = l.begin(); it != l.end(); ++it) out.push_back(*it);\<close>
\<close>

partial_function (option) traverse ::
  "'a state \<Rightarrow> BasicIterator \<Rightarrow> BasicIterator \<Rightarrow> 'a list \<Rightarrow> (error + 'a list) option"
where
  "traverse s it it_end out =
     (if it = it_end then Some (Inr out)
      else
        (case it_deref s it of
           Inl e \<Rightarrow> Some (Inl e)
         | Inr v \<Rightarrow>
             (case it_incr s it of
                Inl e \<Rightarrow> Some (Inl e)
              | Inr it' \<Rightarrow> traverse s it' it_end (out @ [v]))))"

definition elements :: "'a state \<Rightarrow> addr \<Rightarrow> (error + 'a list) option" where
  "elements s this =
     (case list_begin s this of
        Inl e \<Rightarrow> Some (Inl e)
      | Inr b \<Rightarrow> traverse s b list_end [])"

section \<open>Abstraction and invariants\<close>

text \<open>
  \<open>cells h p zs q\<close>: in the node map \<open>h\<close>, following \<open>next_node\<close> from \<open>p\<close> visits
  exactly the nodes at the addresses \<open>map fst zs\<close>, which hold the values \<open>map snd zs\<close>,
  and then arrives at \<open>q\<close>.  With \<open>q = nullptr\<close> this is a chain that ends.
\<close>

fun cells :: "(addr \<rightharpoonup> 'a Node) \<Rightarrow> ptr \<Rightarrow> (addr \<times> 'a) list \<Rightarrow> ptr \<Rightarrow> bool" where
  "cells h p [] q = (p = q)"
| "cells h p ((a, x) # zs) q =
     (p = NodeAt a \<and>
      (case h a of None \<Rightarrow> False | Some n \<Rightarrow> node_value n = x \<and> cells h (next_node n) zs q))"

text \<open>
  \<open>list_at s l zs\<close>: the list object at \<open>l\<close> is alive, the nodes reachable from the link
  of its sentinel are \<open>zs\<close>, and its count \<open>size_\<close> is their number.
\<close>

definition list_at :: "'a state \<Rightarrow> addr \<Rightarrow> (addr \<times> 'a) list \<Rightarrow> bool" where
  "list_at s l zs =
     (case lists s l of
        None \<Rightarrow> False
      | Some L \<Rightarrow> cells (nodes s) (next_node (head_f L)) zs nullptr \<and> unat (size_f L) = length zs)"

text \<open>Every object of the store lies below the allocation frontier.\<close>

definition heap_ok :: "'a state \<Rightarrow> bool" where
  "heap_ok s = ((\<forall>a. nodes s a \<noteq> None \<longrightarrow> a < brk s) \<and> (\<forall>l. lists s l \<noteq> None \<longrightarrow> l < brk s))"

text \<open>The cells of \<open>vs\<close> in consecutive nodes from the address \<open>b\<close> on.\<close>

definition new_cells :: "addr \<Rightarrow> 'a list \<Rightarrow> (addr \<times> 'a) list" where
  "new_cells b vs = zip [b..<b + length vs] vs"

text \<open>
  What \<open>FillLinkedList_\<close> has done when it returns \<open>s'\<close> from \<open>s\<close>: the values \<open>vs\<close>
  are in new nodes chained behind the node of \<open>node_ptr\<close>, the count of \<open>linked_list\<close>
  has grown by their number, and nothing else has changed.
\<close>

definition fill_post :: "addr \<Rightarrow> ptr \<Rightarrow> 'a list \<Rightarrow> 'a state \<Rightarrow> 'a state \<Rightarrow> bool" where
  "fill_post l np vs s s' =
     (brk s' = brk s + length vs \<and> heap_ok s' \<and>
      (\<forall>a. a < brk s \<longrightarrow> np \<noteq> NodeAt a \<longrightarrow> nodes s' a = nodes s a) \<and>
      (\<forall>l'. l' \<noteq> l \<longrightarrow> lists s' l' = lists s l') \<and>
      (\<forall>L. lists s l = Some L \<longrightarrow>
         (\<exists>L'. lists s' l = Some L' \<and> size_f L' = size_f L + of_nat (length vs) \<and>
               (np \<noteq> HeadOf l \<longrightarrow> head_f L' = head_f L))) \<and>
      (\<forall>n. load s np = Inr n \<longrightarrow>
         (\<exists>n'. load s' np = Inr n' \<and> node_value n' = node_value n \<and>
               next_node n' = (if vs = [] then next_node n else NodeAt (brk s)))) \<and>
      (vs \<noteq> [] \<longrightarrow>
         cells (nodes s') (NodeAt (brk s)) (new_cells (brk s) vs) nullptr))"

text \<open>
  What a constructor has done: a new list object at the old frontier with the cells
  \<open>zs\<close> in new nodes, and every older object as it was.
\<close>

definition created :: "'a state \<Rightarrow> 'a state \<Rightarrow> addr \<Rightarrow> (addr \<times> 'a) list \<Rightarrow> bool" where
  "created s s' l zs =
     (l = brk s \<and> list_at s' l zs \<and> heap_ok s' \<and> brk s \<le> brk s' \<and>
      (\<forall>a. a < brk s \<longrightarrow> nodes s' a = nodes s a) \<and>
      (\<forall>l'. l' \<noteq> l \<longrightarrow> lists s' l' = lists s l') \<and>
      (\<forall>a \<in> fst ` set zs. brk s \<le> a))"

text \<open>
  The cursors of a list with the cells \<open>zs\<close>: number 0 is \<open>before_begin()\<close>, number
  \<open>i\<close> from 1 to the length of \<open>zs\<close> is the iterator to the \<open>i\<close>-th element.
\<close>

definition cursor :: "addr \<Rightarrow> (addr \<times> 'a) list \<Rightarrow> nat \<Rightarrow> BasicIterator" where
  "cursor this zs i = (if i = 0 then HeadOf this else NodeAt (fst (zs ! (i - 1))))"

text \<open>A step from \<open>s\<close> to \<open>s'\<close> that changes no list object but \<open>l\<close> and no old node
  outside \<open>zs\<close>.\<close>

definition touches :: "'a state \<Rightarrow> 'a state \<Rightarrow> addr \<Rightarrow> (addr \<times> 'a) list \<Rightarrow> bool" where
  "touches s s' l zs =
     (heap_ok s' \<and> (\<forall>l'. l' \<noteq> l \<longrightarrow> lists s' l' = lists s l') \<and>
      (\<forall>a. a < brk s \<longrightarrow> a \<notin> fst ` set zs \<longrightarrow> nodes s' a = nodes s a))"

text \<open>
  The invariant of the store: every list object that is alive is well formed with a
  count equal to the number of its nodes, and no node belongs to two lists.
\<close>

definition state_inv :: "'a state \<Rightarrow> bool" where
  "state_inv s =
     (heap_ok s \<and>
      (\<forall>l. lists s l \<noteq> None \<longrightarrow> (\<exists>zs. list_at s l zs)) \<and>
      (\<forall>l l' zs zs'. l \<noteq> l' \<longrightarrow> list_at s l zs \<longrightarrow> list_at s l' zs' \<longrightarrow>
         fst ` set zs \<inter> fst ` set zs' = {}))"

text \<open>The invariant of one list in the words of the interface: \<open>GetSize()\<close> is the
  number of nodes between \<open>begin()\<close> and the null end.\<close>

definition size_ok :: "'a state \<Rightarrow> addr \<Rightarrow> bool" where
  "size_ok s l =
     (\<exists>b zs n. list_begin s l = Inr b \<and> cells (nodes s) b zs nullptr \<and>
        GetSize s l = Inr n \<and> unat n = length zs)"

text \<open>
  The mutating calls on a list, and the condition under which the interface admits
  each: room for one more element for an insertion, an element to remove for a removal,
  and a cursor of the list itself (for \<open>EraseAfter\<close> one that has a successor).
\<close>

datatype 'a mutation = Push 'a | Pop | Insert BasicIterator 'a | Erase BasicIterator

fun mutate :: "addr \<Rightarrow> 'a mutation \<Rightarrow> 'a state \<Rightarrow> error + 'a state" where
  "mutate l (Push x) s = PushFront l x s"
| "mutate l Pop s = PopFront l s"
| "mutate l (Insert pos x) s =
     (case InsertAfter l pos x s of Inl e \<Rightarrow> Inl e | Inr (it, s') \<Rightarrow> Inr s')"
| "mutate l (Erase pos) s =
     (case EraseAfter l pos s of Inl e \<Rightarrow> Inl e | Inr (it, s') \<Rightarrow> Inr s')"

fun admissible :: "addr \<Rightarrow> (addr \<times> 'a) list \<Rightarrow> 'a mutation \<Rightarrow> bool" where
  "admissible l zs (Push x) = (length zs + 1 < 2 ^ 64)"
| "admissible l zs Pop = (zs \<noteq> [])"
| "admissible l zs (Insert pos x) =
     (length zs + 1 < 2 ^ 64 \<and> pos \<in> set (map (cursor l zs) [0..<Suc (length zs)]))"
| "admissible l zs (Erase pos) = (pos \<in> set (map (cursor l zs) [0..<length zs]))"

text \<open>
  A sequence of mutations of one list, and the condition that each of them is
  admissible when its turn comes.
\<close>

fun run_mutations :: "addr \<Rightarrow> 'a mutation list \<Rightarrow> 'a state \<Rightarrow> error + 'a state" where
  "run_mutations l [] s = Inr s"
| "run_mutations l (m # ms) s =
     (case mutate l m s of Inl e \<Rightarrow> Inl e | Inr s' \<Rightarrow> run_mutations l ms s')"

fun steps_ok :: "'a state \<Rightarrow> addr \<Rightarrow> 'a mutation list \<Rightarrow> bool" where
  "steps_ok s l [] = True"
| "steps_ok s l (m # ms) =
     (\<exists>zs. list_at s l zs \<and> admissible l zs m \<and>
        (case mutate l m s of Inl e \<Rightarrow> False | Inr s' \<Rightarrow> steps_ok s' l ms))"

subsection \<open>Concrete stores\<close>

text \<open>The store before anything is allocated.\<close>

definition empty_state :: "'a state" where
  "empty_state = \<lparr>nodes = Map.empty, lists = Map.empty, brk = 0\<rparr>"

text \<open>A store with six lists of integers, for the concrete instances: the lists at
  0 to 5 hold 1 2, 1 2 3, 5, 1 3, 1 and nothing.\<close>

definition mk_node :: "'a \<Rightarrow> ptr \<Rightarrow> 'a Node" where
  "mk_node v p = \<lparr>node_value = v, next_node = p\<rparr>"

definition mk_list :: "'a \<Rightarrow> ptr \<Rightarrow> size_t \<Rightarrow> 'a SingleLinkedList" where
  "mk_list d p n = \<lparr>head_f = \<lparr>node_value = d, next_node = p\<rparr>, size_f = n\<rparr>"

definition ex_state :: "int state" where
  "ex_state =
     \<lparr>nodes = [10 \<mapsto> mk_node 1 (NodeAt 11), 11 \<mapsto> mk_node 2 nullptr,
               12 \<mapsto> mk_node 1 (NodeAt 13), 13 \<mapsto> mk_node 2 (NodeAt 14),
               14 \<mapsto> mk_node 3 nullptr,
               15 \<mapsto> mk_node 5 nullptr,
               16 \<mapsto> mk_node 1 (NodeAt 17), 17 \<mapsto> mk_node 3 nullptr,
               18 \<mapsto> mk_node 1 nullptr],
      lists = [0 \<mapsto> mk_list 0 (NodeAt 10) 2, 1 \<mapsto> mk_list 0 (NodeAt 12) 3,
               2 \<mapsto> mk_list 0 (NodeAt 15) 1, 3 \<mapsto> mk_list 0 (NodeAt 16) 2,
               4 \<mapsto> mk_list 0 (NodeAt 18) 1, 5 \<mapsto> mk_list 0 nullptr 0],
      brk = 19\<rparr>"

text \<open>The cells of the lists of \<open>ex_state\<close>.\<close>

definition ex_chain :: "addr \<Rightarrow> (addr \<times> int) list" where
  "ex_chain l =
     (if l = 0 then [(10, 1), (11, 2)]
      else if l = 1 then [(12, 1), (13, 2), (14, 3)]
      else if l = 2 then [(15, 5)]
      else if l = 3 then [(16, 1), (17, 3)]
      else if l = 4 then [(18, 1)]
      else [])"

text \<open>
  A run of the interface: build the list 10 20 30, insert 25 after the cursor to 20,
  erase the element after that cursor again, pop the front; the result is the
  traversal and the size at the end.
\<close>

definition scenario :: "(error + int list \<times> size_t) option" where
  "scenario =
     (case SingleLinkedList_init 0 [10, 20, 30] empty_state of
        None \<Rightarrow> None
      | Some (Inl e) \<Rightarrow> Some (Inl e)
      | Some (Inr (l, s1)) \<Rightarrow>
          (case list_begin s1 l of
             Inl e \<Rightarrow> Some (Inl e)
           | Inr b \<Rightarrow>
               (case it_incr s1 b of
                  Inl e \<Rightarrow> Some (Inl e)
                | Inr to20 \<Rightarrow>
                    (case InsertAfter l to20 25 s1 of
                       Inl e \<Rightarrow> Some (Inl e)
                     | Inr (it, s2) \<Rightarrow>
                         (case EraseAfter l to20 s2 of
                            Inl e \<Rightarrow> Some (Inl e)
                          | Inr (it', s3) \<Rightarrow>
                              (case PopFront l s3 of
                                 Inl e \<Rightarrow> Some (Inl e)
                               | Inr s4 \<Rightarrow>
                                   (case elements s4 l of
                                      None \<Rightarrow> None
                                    | Some (Inl e) \<Rightarrow> Some (Inl e)
                                    | Some (Inr xs) \<Rightarrow>
                                        (case GetSize s4 l of
                                           Inl e \<Rightarrow> Some (Inl e)
                                         | Inr n \<Rightarrow> Some (Inr (xs, n))))))))))"

section \<open>Lemmas\<close>

subsection \<open>The model runs\<close>

text \<open>The run evaluates, by unfolding the definitions, to the list 20 30 of size 2.\<close>

lemma scenario_runs: "scenario = Some (Inr ([20, 30], 2))"
  by (simp add: scenario_def SingleLinkedList_init_def empty_state_def new_object_def
      store_next_def new_Node_def inc_size_def swap_def destroy_def Clear_def Clear_loop.simps
      load_def list_begin_def it_incr_def InsertAfter_def EraseAfter_def delete_Node_def
      dec_size_def PopFront_def elements_def traverse.simps it_deref_def list_end_def
      GetSize_def Let_def)

subsection \<open>Chains of nodes\<close>

lemma cells_null [simp]: "cells h nullptr zs q = (zs = [] \<and> q = nullptr)"
  by (cases zs) auto

lemma cells_head [simp]: "cells h (HeadOf l) zs q = (zs = [] \<and> q = HeadOf l)"
  by (cases zs) auto

lemma cells_append: "cells h p (zs @ ws) q = (\<exists>r. cells h p zs r \<and> cells h r ws q)"
  by (induction zs arbitrary: p) (auto split: option.splits)

lemma cells_cong: "(\<And>a. a \<in> fst ` set zs \<Longrightarrow> h' a = h a) \<Longrightarrow> cells h' p zs q = cells h p zs q"
  by (induction zs arbitrary: p) (auto split: option.splits)

lemma cells_dom: "cells h p zs q \<Longrightarrow> fst ` set zs \<subseteq> dom h"
  by (induction zs arbitrary: p) (fastforce split: option.splits)+

lemma cells_unique: "cells h p zs nullptr \<Longrightarrow> cells h p ws nullptr \<Longrightarrow> zs = ws"
proof (induction zs arbitrary: p ws)
  case Nil
  then show ?case by simp
next
  case (Cons z zs)
  obtain a x where z: "z = (a, x)" by (cases z)
  from Cons.prems(1) z have p: "p = NodeAt a" by simp
  with Cons.prems(2) obtain w ws' where ws: "ws = w # ws'" by (cases ws) auto
  obtain b y where w: "w = (b, y)" by (cases w)
  from Cons.prems z ws w p show ?case
    by (auto split: option.splits dest: Cons.IH)
qed

lemma cells_distinct: "cells h p zs nullptr \<Longrightarrow> distinct (map fst zs)"
proof (induction zs arbitrary: p)
  case Nil
  then show ?case by simp
next
  case (Cons z zs)
  obtain a x where z: "z = (a, x)" by (cases z)
  from Cons.prems z obtain n where n: "h a = Some n" "node_value n = x"
    and tl: "cells h (next_node n) zs nullptr"
    by (auto split: option.splits)
  have "a \<notin> fst ` set zs"
  proof
    assume "a \<in> fst ` set zs"
    then obtain y where "(a, y) \<in> set zs" by auto
    then obtain us ws where split: "zs = us @ (a, y) # ws"
      by (auto simp: in_set_conv_decomp)
    with tl obtain r where "cells h r ((a, y) # ws) nullptr"
      by (auto simp: cells_append)
    with n have "cells h (next_node n) ws nullptr" by simp
    with tl have "zs = ws" by (rule cells_unique)
    with split show False by simp
  qed
  with Cons.IH [OF tl] z show ?case by simp
qed

lemma traverse_cells:
  "cells (nodes s) p zs nullptr \<Longrightarrow> traverse s p nullptr out = Some (Inr (out @ map snd zs))"
proof (induction zs arbitrary: p out)
  case Nil
  then show ?case by (subst traverse.simps) simp
next
  case (Cons z zs)
  obtain a x where z: "z = (a, x)" by (cases z)
  from Cons.prems z obtain n where n: "nodes s a = Some n" "node_value n = x" "p = NodeAt a"
    and tl: "cells (nodes s) (next_node n) zs nullptr"
    by (auto split: option.splits)
  show ?case
    by (subst traverse.simps) (simp add: n z it_deref_def it_incr_def load_def Cons.IH [OF tl])
qed

subsection \<open>The comparison loops and the traversal\<close>

lemma ex_lists:
  "list_at ex_state 0 [(10, 1), (11, 2)]"
  "list_at ex_state 1 [(12, 1), (13, 2), (14, 3)]"
  "list_at ex_state 2 [(15, 5)]"
  "list_at ex_state 3 [(16, 1), (17, 3)]"
  "list_at ex_state 4 [(18, 1)]"
  "list_at ex_state 5 []"
  by (simp_all add: list_at_def ex_state_def mk_node_def mk_list_def)

lemma ex_heap_ok: "heap_ok ex_state"
  by (simp add: heap_ok_def ex_state_def)

lemma std_equal_cells:
  "cells (nodes s) p zs nullptr \<Longrightarrow> cells (nodes s) q ws nullptr \<Longrightarrow>
   std_equal s p nullptr q =
     Some (if prefix (map snd zs) (map snd ws) then Inr True
           else if strict_prefix (map snd ws) (map snd zs) then Inl NullDeref
           else Inr False)"
proof (induction zs arbitrary: p q ws)
  case Nil
  then show ?case by (subst std_equal.simps) simp
next
  case (Cons z zs)
  obtain a x where z: "z = (a, x)" by (cases z)
  from Cons.prems(1) z obtain n where n: "nodes s a = Some n" "node_value n = x" "p = NodeAt a"
    and tl: "cells (nodes s) (next_node n) zs nullptr"
    by (auto split: option.splits)
  show ?case
  proof (cases ws)
    case Nil
    with Cons.prems(2) have "q = nullptr" by simp
    with Nil n z show ?thesis
      by (subst std_equal.simps) (simp add: it_deref_def load_def)
  next
    case (Cons w ws')
    obtain b y where w: "w = (b, y)" by (cases w)
    from Cons.prems(2) Cons w obtain m where m: "nodes s b = Some m" "node_value m = y" "q = NodeAt b"
      and tl': "cells (nodes s) (next_node m) ws' nullptr"
      by (auto split: option.splits)
    show ?thesis
      by (subst std_equal.simps)
         (simp add: n m z w Cons it_deref_def it_incr_def load_def Cons.IH [OF tl tl'])
  qed
qed

lemma std_lexicographical_compare_cells:
  fixes s :: "('a::linorder) state"
  shows "cells (nodes s) p zs nullptr \<Longrightarrow> cells (nodes s) q ws nullptr \<Longrightarrow>
   std_lexicographical_compare s p nullptr q nullptr =
     Some (Inr ((map snd zs, map snd ws) \<in> lexord {(x, y). x < y}))"
proof (induction zs arbitrary: p q ws)
  case Nil
  then show ?case
    by (subst std_lexicographical_compare.simps) (cases ws; auto)
next
  case (Cons z zs)
  obtain a x where z: "z = (a, x)" by (cases z)
  from Cons.prems(1) z obtain n where n: "nodes s a = Some n" "node_value n = x" "p = NodeAt a"
    and tl: "cells (nodes s) (next_node n) zs nullptr"
    by (auto split: option.splits)
  show ?case
  proof (cases ws)
    case Nil
    with Cons.prems(2) have "q = nullptr" by simp
    with Nil n z show ?thesis
      by (subst std_lexicographical_compare.simps) simp
  next
    case (Cons w ws')
    obtain b y where w: "w = (b, y)" by (cases w)
    from Cons.prems(2) Cons w obtain m where m: "nodes s b = Some m" "node_value m = y" "q = NodeAt b"
      and tl': "cells (nodes s) (next_node m) ws' nullptr"
      by (auto split: option.splits)
    show ?thesis
      by (subst std_lexicographical_compare.simps)
         (auto simp add: n m z w Cons it_deref_def it_incr_def load_def Cons.IH [OF tl tl'])
  qed
qed

lemma list_atD:
  "list_at s l zs \<Longrightarrow>
   \<exists>L. lists s l = Some L \<and> cells (nodes s) (next_node (head_f L)) zs nullptr \<and>
       unat (size_f L) = length zs"
  by (auto simp: list_at_def split: option.splits)

lemma operator_eq_lists:
  assumes "list_at s lhs zs" "list_at s rhs ws"
  shows "operator_eq s lhs rhs =
     Some (if prefix (map snd zs) (map snd ws) then Inr True
           else if strict_prefix (map snd ws) (map snd zs) then Inl NullDeref
           else Inr False)"
  using assms [THEN list_atD]
  by (auto simp: operator_eq_def list_begin_def list_end_def std_equal_cells simp del: cells.simps)

lemma operator_lt_lists:
  fixes s :: "('a::linorder) state"
  assumes "list_at s lhs zs" "list_at s rhs ws"
  shows "operator_lt s lhs rhs = Some (Inr ((map snd zs, map snd ws) \<in> lexord {(x, y). x < y}))"
  using assms [THEN list_atD]
  by (auto simp: operator_lt_def list_begin_def list_end_def std_lexicographical_compare_cells
           simp del: cells.simps)

lemma elements_list:
  "list_at s l zs \<Longrightarrow> elements s l = Some (Inr (map snd zs))"
  by (auto simp: elements_def list_begin_def list_end_def traverse_cells dest!: list_atD)

lemma GetSize_list:
  "list_at s l zs \<Longrightarrow> \<exists>n. GetSize s l = Inr n \<and> unat n = length zs"
  by (auto simp: GetSize_def dest!: list_atD)

subsection \<open>Insertion and removal at the front\<close>

lemma unat_inc: "unat (w :: size_t) + 1 < 2 ^ 64 \<Longrightarrow> unat (w + 1) = unat w + 1"
  using unat_add_lem [of w 1] by simp

lemma unat_dec: "unat (w :: size_t) = Suc n \<Longrightarrow> unat (w - 1) = n"
  using unat_minus_one [of w] by (cases "w = 0") auto

lemma cells_fresh: "heap_ok s \<Longrightarrow> cells (nodes s) p zs q \<Longrightarrow> a \<in> fst ` set zs \<Longrightarrow> a < brk s"
  using cells_dom [of "nodes s" p zs q] by (auto simp: heap_ok_def)

lemma cells_upd_other [simp]:
  "a \<notin> fst ` set zs \<Longrightarrow> cells (h(a := v)) p zs q = cells h p zs q"
  by (rule cells_cong) auto

lemma list_at_frame:
  "list_at s l zs \<Longrightarrow> lists s' l = lists s l \<Longrightarrow> (\<And>a. a \<in> fst ` set zs \<Longrightarrow> nodes s' a = nodes s a)
   \<Longrightarrow> list_at s' l zs"
  using cells_cong [of zs "nodes s'" "nodes s"]
  by (auto simp: list_at_def split: option.splits)

lemma PushFront_result:
  "lists s this = Some L \<Longrightarrow>
   PushFront this x s =
     Inr (s\<lparr>nodes := (nodes s)(brk s \<mapsto> \<lparr>node_value = x, next_node = next_node (head_f L)\<rparr>),
            brk := Suc (brk s),
            lists := (lists s)(this \<mapsto>
               L\<lparr>head_f := (head_f L)\<lparr>next_node := NodeAt (brk s)\<rparr>, size_f := size_f L + 1\<rparr>)\<rparr>)"
  by (simp add: PushFront_def load_def new_Node_def store_next_def inc_size_def)

lemma InsertAfter_head_result:
  "lists s this = Some L \<Longrightarrow>
   InsertAfter this (HeadOf this) x s =
     Inr (NodeAt (brk s),
          s\<lparr>nodes := (nodes s)(brk s \<mapsto> \<lparr>node_value = x, next_node = next_node (head_f L)\<rparr>),
            brk := Suc (brk s),
            lists := (lists s)(this \<mapsto>
               L\<lparr>head_f := (head_f L)\<lparr>next_node := NodeAt (brk s)\<rparr>, size_f := size_f L + 1\<rparr>)\<rparr>)"
  by (simp add: InsertAfter_def load_def new_Node_def store_next_def inc_size_def)

lemma PushFront_list_at:
  assumes "heap_ok s" "list_at s this zs" "length zs + 1 < 2 ^ 64" "PushFront this x s = Inr s'"
  shows "list_at s' this ((brk s, x) # zs)"
proof -
  from assms(2) obtain L where L: "lists s this = Some L"
    "cells (nodes s) (next_node (head_f L)) zs nullptr" "unat (size_f L) = length zs"
    by (auto dest: list_atD)
  have fresh: "brk s \<notin> fst ` set zs"
    using cells_fresh [OF assms(1) L(2)] by auto
  have "cells ((nodes s)(brk s \<mapsto> \<lparr>node_value = x, next_node = next_node (head_f L)\<rparr>))
          (next_node (head_f L)) zs nullptr"
    using L(2) fresh by simp
  with assms(3,4) L show ?thesis
    by (auto simp: PushFront_result [OF L(1)] list_at_def unat_inc)
qed

lemma PopFront_result:
  "lists s this = Some L \<Longrightarrow> next_node (head_f L) = NodeAt a \<Longrightarrow> nodes s a = Some n \<Longrightarrow>
   PopFront this s =
     Inr (s\<lparr>lists := (lists s)(this \<mapsto>
               L\<lparr>head_f := (head_f L)\<lparr>next_node := next_node n\<rparr>, size_f := size_f L - 1\<rparr>),
            nodes := (nodes s)(a := None)\<rparr>)"
  by (simp add: PopFront_def load_def delete_Node_def store_next_def dec_size_def)

lemma EraseAfter_head_result:
  "lists s this = Some L \<Longrightarrow> next_node (head_f L) = NodeAt a \<Longrightarrow> nodes s a = Some n \<Longrightarrow>
   EraseAfter this (HeadOf this) s =
     Inr (next_node n,
          s\<lparr>lists := (lists s)(this \<mapsto>
               L\<lparr>head_f := (head_f L)\<lparr>next_node := next_node n\<rparr>, size_f := size_f L - 1\<rparr>),
            nodes := (nodes s)(a := None)\<rparr>)"
  by (simp add: EraseAfter_def load_def delete_Node_def store_next_def dec_size_def)

lemma PopFront_list_at:
  assumes "list_at s this ((a, x) # zs)" "PopFront this s = Inr s'"
  shows "list_at s' this zs"
proof -
  from assms(1) obtain L n where L: "lists s this = Some L"
    "next_node (head_f L) = NodeAt a" "nodes s a = Some n"
    "cells (nodes s) (next_node n) zs nullptr" "unat (size_f L) = Suc (length zs)"
    and all: "cells (nodes s) (next_node (head_f L)) ((a, x) # zs) nullptr"
    by (auto dest!: list_atD split: option.splits)
  from cells_distinct [OF all] have "a \<notin> fst ` set zs" by simp
  then have "cells ((nodes s)(a := None)) (next_node n) zs nullptr"
    using L(4) by simp
  with assms(2) L show ?thesis
    by (auto simp: PopFront_result [OF L(1,2,3)] list_at_def unat_dec)
qed

subsection \<open>Filling, clearing and construction\<close>

lemma new_cells_Nil [simp]: "new_cells b [] = []"
  by (simp add: new_cells_def)

lemma new_cells_Cons [simp]: "new_cells b (v # vs) = (b, v) # new_cells (Suc b) vs"
  by (simp add: new_cells_def upt_rec)

lemma new_cells_values [simp]: "map snd (new_cells b vs) = vs"
  by (simp add: new_cells_def)

lemma new_cells_length [simp]: "length (new_cells b vs) = length vs"
  by (simp add: new_cells_def)

lemma new_cells_addrs: "a \<in> fst ` set (new_cells b vs) \<Longrightarrow> b \<le> a \<and> a < b + length vs"
  by (auto simp: new_cells_def dest!: set_zip_leftD)

lemma fill_step_head:
  assumes "lists s l = Some L"
  shows "(case store_next (HeadOf l) (NodeAt (brk s)) (new_Node v nullptr s) of
            Inl e \<Rightarrow> Inl e | Inr s1 \<Rightarrow> inc_size l s1) =
         Inr (s\<lparr>nodes := (nodes s)(brk s \<mapsto> \<lparr>node_value = v, next_node = nullptr\<rparr>),
                brk := Suc (brk s),
                lists := (lists s)(l \<mapsto>
                  L\<lparr>head_f := (head_f L)\<lparr>next_node := NodeAt (brk s)\<rparr>, size_f := size_f L + 1\<rparr>)\<rparr>)"
  using assms by (simp add: store_next_def new_Node_def inc_size_def)

lemma fill_step_node:
  assumes "lists s l = Some L" and "nodes s a = Some n" and "a \<noteq> brk s"
  shows "(case store_next (NodeAt a) (NodeAt (brk s)) (new_Node v nullptr s) of
            Inl e \<Rightarrow> Inl e | Inr s1 \<Rightarrow> inc_size l s1) =
         Inr (s\<lparr>nodes := (nodes s)(brk s \<mapsto> \<lparr>node_value = v, next_node = nullptr\<rparr>,
                                  a \<mapsto> n\<lparr>next_node := NodeAt (brk s)\<rparr>),
                brk := Suc (brk s),
                lists := (lists s)(l \<mapsto> L\<lparr>size_f := size_f L + 1\<rparr>)\<rparr>)"
  using assms by (simp add: store_next_def new_Node_def inc_size_def)

lemma fill_step:
  assumes ok: "heap_ok s" and L: "lists s l = Some L" and ld: "load s np = Inr n0"
    and np: "np = HeadOf l \<or> (\<exists>a. np = NodeAt a)"
  shows "\<exists>s2 L2. (case store_next np (NodeAt (brk s)) (new_Node v nullptr s) of
            Inl e \<Rightarrow> Inl e | Inr s1 \<Rightarrow> inc_size l s1) = Inr s2 \<and>
          heap_ok s2 \<and> brk s2 = Suc (brk s) \<and>
          nodes s2 (brk s) = Some \<lparr>node_value = v, next_node = nullptr\<rparr> \<and>
          (\<forall>a. a < brk s \<longrightarrow> np \<noteq> NodeAt a \<longrightarrow> nodes s2 a = nodes s a) \<and>
          (\<forall>l'. l' \<noteq> l \<longrightarrow> lists s2 l' = lists s l') \<and>
          lists s2 l = Some L2 \<and> size_f L2 = size_f L + 1 \<and>
          (np \<noteq> HeadOf l \<longrightarrow> head_f L2 = head_f L) \<and>
          load s2 np = Inr (n0\<lparr>next_node := NodeAt (brk s)\<rparr>)"
proof (cases "np = HeadOf l")
  case True
  with ok L ld show ?thesis
    unfolding True fill_step_head [OF L]
    by (auto simp: heap_ok_def load_def less_Suc_eq)
next
  case False
  with np obtain a where a: "np = NodeAt a" by auto
  with ld have n0: "nodes s a = Some n0" by (auto simp: load_def split: option.splits)
  with ok have "a \<noteq> brk s" by (auto simp: heap_ok_def)
  with ok L n0 show ?thesis
    unfolding a fill_step_node [OF L n0 \<open>a \<noteq> brk s\<close>]
    by (auto simp: heap_ok_def load_def less_Suc_eq)
qed

lemma FillLinkedList_init_effect:
  assumes "heap_ok s" and "lists s l = Some L" and "load s np = Inr n0"
    and "np = HeadOf l \<or> (\<exists>a. np = NodeAt a)"
  shows "\<exists>s'. FillLinkedList_init l np vs s = Inr s' \<and> fill_post l np vs s s'"
  using assms
proof (induction vs arbitrary: s np L n0)
  case Nil
  then show ?case by (simp add: fill_post_def)
next
  case (Cons v vs)
  from fill_step [OF Cons.prems, of v] obtain s2 L2 where
    step: "(case store_next np (NodeAt (brk s)) (new_Node v nullptr s) of
              Inl e \<Rightarrow> Inl e | Inr s1 \<Rightarrow> inc_size l s1) = Inr s2"
    and ok2: "heap_ok s2" and brk2: "brk s2 = Suc (brk s)"
    and new: "nodes s2 (brk s) = Some \<lparr>node_value = v, next_node = nullptr\<rparr>"
    and fr_nodes: "\<forall>a. a < brk s \<longrightarrow> np \<noteq> NodeAt a \<longrightarrow> nodes s2 a = nodes s a"
    and fr_lists: "\<forall>l'. l' \<noteq> l \<longrightarrow> lists s2 l' = lists s l'"
    and L2: "lists s2 l = Some L2" "size_f L2 = size_f L + 1"
      "np \<noteq> HeadOf l \<longrightarrow> head_f L2 = head_f L"
    and ld2: "load s2 np = Inr (n0\<lparr>next_node := NodeAt (brk s)\<rparr>)"
    by blast
  have ldn: "load s2 (NodeAt (brk s)) = Inr \<lparr>node_value = v, next_node = nullptr\<rparr>"
    using new by (simp add: load_def)
  from Cons.IH [OF ok2 L2(1) ldn] obtain s' where
    run: "FillLinkedList_init l (NodeAt (brk s)) vs s2 = Inr s'"
    and post: "fill_post l (NodeAt (brk s)) vs s2 s'"
    by blast
  have res: "FillLinkedList_init l np (v # vs) s = Inr s'"
    using step run by (auto split: sum.splits)
  from post have p_brk: "brk s' = brk s2 + length vs" and p_ok: "heap_ok s'"
    and p_nodes: "\<And>a. a < brk s2 \<Longrightarrow> a \<noteq> brk s \<Longrightarrow> nodes s' a = nodes s2 a"
    and p_lists: "\<And>l'. l' \<noteq> l \<Longrightarrow> lists s' l' = lists s2 l'"
    and p_l: "\<exists>L'. lists s' l = Some L' \<and> size_f L' = size_f L2 + of_nat (length vs) \<and>
               head_f L' = head_f L2"
    and p_new: "\<exists>n'. load s' (NodeAt (brk s)) = Inr n' \<and> node_value n' = v \<and>
               next_node n' = (if vs = [] then nullptr else NodeAt (brk s2))"
    and p_cells: "vs \<noteq> [] \<Longrightarrow>
        cells (nodes s') (NodeAt (brk s2)) (new_cells (brk s2) vs) nullptr"
    using L2(1) ldn by (auto simp: fill_post_def)
  have a1: "brk s' = brk s + length (v # vs)"
    using p_brk brk2 by simp
  have a3: "\<forall>a. a < brk s \<longrightarrow> np \<noteq> NodeAt a \<longrightarrow> nodes s' a = nodes s a"
    using p_nodes fr_nodes brk2 by auto
  have a4: "\<forall>l'. l' \<noteq> l \<longrightarrow> lists s' l' = lists s l'"
    using p_lists fr_lists by auto
  have a5: "\<forall>K. lists s l = Some K \<longrightarrow>
         (\<exists>L'. lists s' l = Some L' \<and> size_f L' = size_f K + of_nat (length (v # vs)) \<and>
               (np \<noteq> HeadOf l \<longrightarrow> head_f L' = head_f K))"
    using p_l L2 Cons.prems(2) by (auto simp: algebra_simps)
  have a6: "\<forall>n. load s np = Inr n \<longrightarrow>
         (\<exists>n'. load s' np = Inr n' \<and> node_value n' = node_value n \<and>
               next_node n' = (if v # vs = [] then next_node n else NodeAt (brk s)))"
  proof (cases "np = HeadOf l")
    case True
    with p_l ld2 L2 Cons.prems(3) show ?thesis
      by (auto simp: load_def)
  next
    case False
    with Cons.prems(4) obtain a where a: "np = NodeAt a" by auto
    with Cons.prems(1,3) have "a < brk s"
      by (auto simp: load_def heap_ok_def split: option.splits)
    with p_nodes [of a] brk2 have "nodes s' a = nodes s2 a" by simp
    with ld2 Cons.prems(3) a show ?thesis
      by (auto simp: load_def split: option.splits)
  qed
  have a7: "cells (nodes s') (NodeAt (brk s)) (new_cells (brk s) (v # vs)) nullptr"
  proof -
    from p_new obtain n' where n': "nodes s' (brk s) = Some n'" "node_value n' = v"
      "next_node n' = (if vs = [] then nullptr else NodeAt (brk s2))"
      by (auto simp: load_def split: option.splits)
    show ?thesis
      using n' p_cells brk2 by (cases "vs = []") auto
  qed
  from res a1 p_ok a3 a4 a5 a6 a7 show ?case
    unfolding fill_post_def by blast
qed

lemma Clear_loop_effect:
  assumes "lists s l = Some L" and "cells (nodes s) (next_node (head_f L)) zs nullptr"
  shows "\<exists>s'. Clear_loop l s = Some (Inr s') \<and> brk s' = brk s \<and>
           lists s' = (lists s)(l \<mapsto> L\<lparr>head_f := (head_f L)\<lparr>next_node := nullptr\<rparr>\<rparr>) \<and>
           nodes s' = (\<lambda>a. if a \<in> fst ` set zs then None else nodes s a)"
  using assms
proof (induction zs arbitrary: s L)
  case Nil
  then have "next_node (head_f L) = nullptr" by simp
  then have "L\<lparr>head_f := (head_f L)\<lparr>next_node := nullptr\<rparr>\<rparr> = L" by simp
  with Nil show ?case
    by (subst Clear_loop.simps) (auto simp: load_def)
next
  case (Cons z zs)
  obtain a x where z: "z = (a, x)" by (cases z)
  from Cons.prems z obtain n where n: "next_node (head_f L) = NodeAt a" "nodes s a = Some n"
    and tl: "cells (nodes s) (next_node n) zs nullptr"
    by (auto split: option.splits)
  from cells_distinct [OF Cons.prems(2)] z have notin: "a \<notin> fst ` set zs" by simp
  define s2 where "s2 = s\<lparr>lists := (lists s)(l \<mapsto> L\<lparr>head_f := (head_f L)\<lparr>next_node := next_node n\<rparr>\<rparr>),
                          nodes := (nodes s)(a := None)\<rparr>"
  have unfold: "Clear_loop l s = Clear_loop l s2"
    by (subst Clear_loop.simps)
       (simp add: load_def store_next_def delete_Node_def Cons.prems(1) n s2_def)
  have L2: "lists s2 l = Some (L\<lparr>head_f := (head_f L)\<lparr>next_node := next_node n\<rparr>\<rparr>)"
    by (simp add: s2_def)
  have tl2: "cells (nodes s2) (next_node (head_f (L\<lparr>head_f := (head_f L)\<lparr>next_node := next_node n\<rparr>\<rparr>))) zs nullptr"
    using tl notin by (simp add: s2_def)
  from Cons.IH [OF L2 tl2] obtain s' where
    "Clear_loop l s2 = Some (Inr s')" "brk s' = brk s2"
    "lists s' = (lists s2)(l \<mapsto> L\<lparr>head_f := (head_f L)\<lparr>next_node := next_node n\<rparr>\<rparr>
                    \<lparr>head_f := (head_f (L\<lparr>head_f := (head_f L)\<lparr>next_node := next_node n\<rparr>\<rparr>))\<lparr>next_node := nullptr\<rparr>\<rparr>)"
    "nodes s' = (\<lambda>b. if b \<in> fst ` set zs then None else nodes s2 b)"
    by blast
  then show ?case
    unfolding unfold by (auto simp: s2_def z fun_eq_iff)
qed

lemma Clear_effect:
  assumes "lists s l = Some L" and "cells (nodes s) (next_node (head_f L)) zs nullptr"
  shows "\<exists>s'. Clear l s = Some (Inr s') \<and> brk s' = brk s \<and>
           lists s' = (lists s)(l \<mapsto> L\<lparr>head_f := (head_f L)\<lparr>next_node := nullptr\<rparr>, size_f := 0\<rparr>) \<and>
           nodes s' = (\<lambda>a. if a \<in> fst ` set zs then None else nodes s a)"
proof -
  from Clear_loop_effect [OF assms] obtain s1 where
    "Clear_loop l s = Some (Inr s1)" "brk s1 = brk s"
    "lists s1 = (lists s)(l \<mapsto> L\<lparr>head_f := (head_f L)\<lparr>next_node := nullptr\<rparr>\<rparr>)"
    "nodes s1 = (\<lambda>a. if a \<in> fst ` set zs then None else nodes s a)"
    by blast
  then show ?thesis by (simp add: Clear_def)
qed

lemma destroy_effect:
  assumes "lists s l = Some L" and "cells (nodes s) (next_node (head_f L)) zs nullptr"
  shows "\<exists>s'. destroy l s = Some (Inr s') \<and> brk s' = brk s \<and>
           lists s' = (lists s)(l := None) \<and>
           nodes s' = (\<lambda>a. if a \<in> fst ` set zs then None else nodes s a)"
proof -
  from Clear_effect [OF assms] obtain s1 where
    "Clear l s = Some (Inr s1)" "brk s1 = brk s"
    "lists s1 = (lists s)(l \<mapsto> L\<lparr>head_f := (head_f L)\<lparr>next_node := nullptr\<rparr>, size_f := 0\<rparr>)"
    "nodes s1 = (\<lambda>a. if a \<in> fst ` set zs then None else nodes s a)"
    by blast
  then show ?thesis by (simp add: destroy_def)
qed

lemma swap_result:
  "lists s this = Some L \<Longrightarrow> lists s other = Some R \<Longrightarrow>
   swap this other s =
     Inr (s\<lparr>lists := (lists s)
            (this \<mapsto> L\<lparr>head_f := (head_f L)\<lparr>next_node := next_node (head_f R)\<rparr>,
                        size_f := size_f R\<rparr>,
             other \<mapsto> R\<lparr>head_f := (head_f R)\<lparr>next_node := next_node (head_f L)\<rparr>,
                         size_f := size_f L\<rparr>)\<rparr>)"
  by (simp add: swap_def)

lemma new_object_facts:
  assumes "heap_ok s"
  shows "heap_ok (new_object dflt s)"
    and "brk (new_object dflt s) = Suc (brk s)"
    and "nodes (new_object dflt s) = nodes s"
    and "lists (new_object dflt s) =
           (lists s)(brk s \<mapsto> \<lparr>head_f = \<lparr>node_value = dflt, next_node = nullptr\<rparr>, size_f = 0\<rparr>)"
  using assms by (auto simp: new_object_def heap_ok_def less_Suc_eq)

lemma heap_ok_above:
  assumes "heap_ok s" and "brk s \<le> a"
  shows "nodes s a = None" and "lists s a = None"
  using assms by (force simp: heap_ok_def)+

lemma unat_of_nat_size: "n < 2 ^ 64 \<Longrightarrow> unat (of_nat n :: size_t) = n"
  by (rule of_nat_inverse [OF refl]) simp

lemma finish_construction:
  fixes s1 s2 :: "'a state"
  assumes ok: "heap_ok s" and len: "length vs < 2 ^ 64"
    and s1: "s1 = new_object dflt (new_object dflt s)"
    and post: "fill_post (Suc (brk s)) (HeadOf (Suc (brk s))) vs s1 s2"
  shows "\<exists>s'. (case swap (brk s) (Suc (brk s)) s2 of
                 Inl e \<Rightarrow> Some (Inl e)
               | Inr s3 \<Rightarrow>
                   (case destroy (Suc (brk s)) s3 of
                      None \<Rightarrow> None
                    | Some (Inl e) \<Rightarrow> Some (Inl e)
                    | Some (Inr s4) \<Rightarrow> Some (Inr (brk s, s4)))) = Some (Inr (brk s, s')) \<and>
              created s s' (brk s) (new_cells (Suc (Suc (brk s))) vs)"
proof -
  let ?E = "\<lparr>head_f = \<lparr>node_value = dflt, next_node = nullptr\<rparr>, size_f = 0 :: size_t\<rparr>"
  let ?me = "brk s" and ?tmp = "Suc (brk s)"
  let ?zs = "new_cells (Suc (Suc (brk s))) vs"
  have ok1: "heap_ok s1" and brk1: "brk s1 = Suc (Suc (brk s))" and nodes1: "nodes s1 = nodes s"
    and lists1: "lists s1 = (lists s)(?me \<mapsto> ?E, ?tmp \<mapsto> ?E)"
    using ok by (simp_all add: s1 new_object_facts)
  have tmp1: "lists s1 ?tmp = Some ?E" and ld1: "load s1 (HeadOf ?tmp) = Inr (head_f ?E)"
    by (simp_all add: lists1 load_def)
  note p = post [unfolded fill_post_def brk1]
  from p have brk2: "brk s2 = Suc (Suc (brk s)) + length vs" and ok2: "heap_ok s2"
    by blast+
  from p have nodes2: "\<And>a. a < Suc (Suc (brk s)) \<Longrightarrow> nodes s2 a = nodes s1 a"
    by simp
  from p have lists2: "\<And>l'. l' \<noteq> ?tmp \<Longrightarrow> lists s2 l' = lists s1 l'"
    by blast
  from p tmp1 obtain L' where tmp2: "lists s2 ?tmp = Some L'" "size_f L' = of_nat (length vs)"
    by fastforce
  from p ld1 obtain n' where "load s2 (HeadOf ?tmp) = Inr n'"
    "next_node n' = (if vs = [] then nullptr else NodeAt (Suc (Suc (brk s))))"
    by fastforce
  with tmp2 have hd2': "next_node (head_f L') = (if vs = [] then nullptr else NodeAt (Suc (Suc (brk s))))"
    by (simp add: load_def)
  from p have cells2: "vs \<noteq> [] \<Longrightarrow> cells (nodes s2) (NodeAt (Suc (Suc (brk s)))) ?zs nullptr"
    by blast
  have this2: "lists s2 ?me = Some ?E"
    using lists2 [of ?me] lists1 by simp
  define s3 where "s3 = s2\<lparr>lists := (lists s2)
            (?me \<mapsto> ?E\<lparr>head_f := (head_f ?E)\<lparr>next_node := next_node (head_f L')\<rparr>,
                        size_f := size_f L'\<rparr>,
             ?tmp \<mapsto> L'\<lparr>head_f := (head_f L')\<lparr>next_node := next_node (head_f ?E)\<rparr>,
                         size_f := size_f ?E\<rparr>)\<rparr>"
  have sw: "swap ?me ?tmp s2 = Inr s3"
    unfolding s3_def by (rule swap_result [OF this2 tmp2(1)])
  have tmp3: "lists s3 ?tmp = Some (L'\<lparr>head_f := (head_f L')\<lparr>next_node := next_node (head_f ?E)\<rparr>,
                         size_f := size_f ?E\<rparr>)"
    by (simp add: s3_def)
  have "cells (nodes s3) (next_node (head_f (L'\<lparr>head_f := (head_f L')\<lparr>next_node := next_node (head_f ?E)\<rparr>,
                         size_f := size_f ?E\<rparr>))) [] nullptr"
    by simp
  from destroy_effect [OF tmp3 this] obtain s' where
    d: "destroy ?tmp s3 = Some (Inr s')" and brk': "brk s' = brk s3"
    and lists': "lists s' = (lists s3)(?tmp := None)" and nodes': "nodes s' = nodes s3"
    by auto
  have cells': "cells (nodes s') (next_node (head_f L')) ?zs nullptr"
    using cells2 hd2' nodes' by (cases "vs = []") (simp_all add: s3_def)
  have at: "list_at s' ?me ?zs"
    using cells' lists' tmp2(2) len
    by (simp add: list_at_def s3_def unat_of_nat_size)
  have ok': "heap_ok s'"
    using ok2 lists' nodes' brk' brk2
    by (auto simp: heap_ok_def s3_def split: if_splits)
  have fr_nodes: "\<forall>a. a < brk s \<longrightarrow> nodes s' a = nodes s a"
    using nodes' nodes2 nodes1 by (simp add: s3_def)
  have fr_lists: "\<forall>l'. l' \<noteq> ?me \<longrightarrow> lists s' l' = lists s l'"
    using lists' lists2 lists1 heap_ok_above(2) [OF ok, of "Suc (brk s)"] by (auto simp: s3_def)
  have new: "\<forall>a \<in> fst ` set ?zs. brk s \<le> a"
    using new_cells_addrs [of _ "Suc (Suc (brk s))" vs] by fastforce
  from sw d at ok' fr_nodes fr_lists new brk' brk2 show ?thesis
    by (simp add: created_def s3_def)
qed

lemma SingleLinkedList_init_effect:
  assumes "heap_ok s" and "length vs < 2 ^ 64"
  shows "\<exists>s'. SingleLinkedList_init dflt vs s = Some (Inr (brk s, s')) \<and>
              created s s' (brk s) (new_cells (Suc (Suc (brk s))) vs)"
proof -
  let ?s1 = "new_object dflt (new_object dflt s)"
  let ?E = "\<lparr>head_f = \<lparr>node_value = dflt, next_node = nullptr\<rparr>, size_f = 0 :: size_t\<rparr>"
  have ok1: "heap_ok ?s1" and tmp1: "lists ?s1 (Suc (brk s)) = Some ?E"
    using assms(1) by (simp_all add: new_object_facts)
  have ld: "load ?s1 (HeadOf (Suc (brk s))) = Inr (head_f ?E)"
    using tmp1 by (simp add: load_def)
  from FillLinkedList_init_effect [OF ok1 tmp1 ld, of vs] obtain s2 where
    fill: "FillLinkedList_init (Suc (brk s)) (HeadOf (Suc (brk s))) vs ?s1 = Inr s2"
    and post: "fill_post (Suc (brk s)) (HeadOf (Suc (brk s))) vs ?s1 s2"
    by auto
  have b: "brk (new_object dflt s) = Suc (brk s)"
    using assms(1) by (rule new_object_facts)
  show ?thesis
    unfolding SingleLinkedList_init_def Let_def b fill sum.case
    by (rule finish_construction [OF assms refl post])
qed

lemma FillLinkedList_as_init:
  assumes "heap_ok s" and "cells (nodes s) it bs nullptr" and "lists s l = Some L"
    and "load s np = Inr n0"
    and "np = HeadOf l \<or> (\<exists>a. np = NodeAt a \<and> a \<notin> fst ` set bs)"
  shows "FillLinkedList l np it nullptr s = Some (FillLinkedList_init l np (map snd bs) s)"
  using assms
proof (induction bs arbitrary: s it np L n0)
  case Nil
  then show ?case by (subst FillLinkedList.simps) simp
next
  case (Cons z bs)
  obtain b x where z: "z = (b, x)" by (cases z)
  from Cons.prems(2) z obtain nb where it: "it = NodeAt b" and nb: "nodes s b = Some nb"
    "node_value nb = x" and tl: "cells (nodes s) (next_node nb) bs nullptr"
    by (auto split: option.splits)
  have np': "np = HeadOf l \<or> (\<exists>a. np = NodeAt a)"
    using Cons.prems(5) by auto
  from fill_step [OF Cons.prems(1,3,4) np', of x] obtain s2 L2 where
    step: "(case store_next np (NodeAt (brk s)) (new_Node x nullptr s) of
              Inl e \<Rightarrow> Inl e | Inr s1 \<Rightarrow> inc_size l s1) = Inr s2"
    and ok2: "heap_ok s2"
    and new: "nodes s2 (brk s) = Some \<lparr>node_value = x, next_node = nullptr\<rparr>"
    and fr_nodes: "\<forall>a. a < brk s \<longrightarrow> np \<noteq> NodeAt a \<longrightarrow> nodes s2 a = nodes s a"
    and L2: "lists s2 l = Some L2"
    by blast
  from step obtain s1 where s1: "store_next np (NodeAt (brk s)) (new_Node x nullptr s) = Inr s1"
    "inc_size l s1 = Inr s2"
    by (auto split: sum.splits)
  have old: "\<And>a. a \<in> fst ` set (z # bs) \<Longrightarrow> nodes s2 a = nodes s a"
    using fr_nodes cells_fresh [OF Cons.prems(1,2)] Cons.prems(5) by auto
  have b2: "nodes s2 b = Some nb"
    using old [of b] nb z by simp
  have tl2: "cells (nodes s2) (next_node nb) bs nullptr"
    using tl old cells_cong [of bs "nodes s2" "nodes s"] by simp
  have ld2: "load s2 (NodeAt (brk s)) = Inr \<lparr>node_value = x, next_node = nullptr\<rparr>"
    using new by (simp add: load_def)
  have fresh: "brk s \<notin> fst ` set bs"
    using cells_fresh [OF Cons.prems(1) tl] by auto
  then have np2: "NodeAt (brk s) = HeadOf l \<or> (\<exists>a. NodeAt (brk s) = NodeAt a \<and> a \<notin> fst ` set bs)"
    by simp
  have "FillLinkedList l np it nullptr s = FillLinkedList l (NodeAt (brk s)) (next_node nb) nullptr s2"
    by (subst FillLinkedList.simps) (simp add: it it_deref_def it_incr_def load_def nb s1 b2)
  also have "\<dots> = Some (FillLinkedList_init l (NodeAt (brk s)) (map snd bs) s2)"
    by (rule Cons.IH [OF ok2 tl2 L2 ld2 np2])
  also have "FillLinkedList_init l (NodeAt (brk s)) (map snd bs) s2 =
      FillLinkedList_init l np (map snd (z # bs)) s"
    by (simp add: z s1)
  finally show ?case .
qed

lemma SingleLinkedList_copy_effect:
  assumes "heap_ok s" and "list_at s other bs"
  shows "\<exists>s'. SingleLinkedList_copy dflt other s = Some (Inr (brk s, s')) \<and>
              created s s' (brk s) (new_cells (Suc (Suc (brk s))) (map snd bs))"
proof -
  let ?s1 = "new_object dflt (new_object dflt s)"
  let ?E = "\<lparr>head_f = \<lparr>node_value = dflt, next_node = nullptr\<rparr>, size_f = 0 :: size_t\<rparr>"
  from assms(2) obtain R where R: "lists s other = Some R"
    "cells (nodes s) (next_node (head_f R)) bs nullptr" "unat (size_f R) = length bs"
    by (auto dest: list_atD)
  have len: "length (map snd bs) < 2 ^ 64"
    using R(3) unsigned_less [of "size_f R", where 'a = nat] by simp
  from R(1) assms(1) have other: "other < brk s"
    by (auto simp: heap_ok_def)
  have ok1: "heap_ok ?s1" and tmp1: "lists ?s1 (Suc (brk s)) = Some ?E"
    and nodes1: "nodes ?s1 = nodes s"
    using assms(1) by (simp_all add: new_object_facts)
  have other1: "lists ?s1 other = Some R"
    using assms(1) other R(1) by (simp add: new_object_facts)
  have b: "brk (new_object dflt s) = Suc (brk s)"
    using assms(1) by (rule new_object_facts)
  have beg: "list_begin ?s1 other = Inr (next_node (head_f R))"
    using other1 by (simp add: list_begin_def)
  have ld: "load ?s1 (HeadOf (Suc (brk s))) = Inr (head_f ?E)"
    using tmp1 by (simp add: load_def)
  have src: "cells (nodes ?s1) (next_node (head_f R)) bs nullptr"
    using R(2) nodes1 by simp
  have loop: "FillLinkedList (Suc (brk s)) (HeadOf (Suc (brk s))) (next_node (head_f R)) list_end ?s1 =
      Some (FillLinkedList_init (Suc (brk s)) (HeadOf (Suc (brk s))) (map snd bs) ?s1)"
    unfolding list_end_def by (rule FillLinkedList_as_init [OF ok1 src tmp1 ld]) simp
  from FillLinkedList_init_effect [OF ok1 tmp1 ld, of "map snd bs"] obtain s2 where
    fill: "FillLinkedList_init (Suc (brk s)) (HeadOf (Suc (brk s))) (map snd bs) ?s1 = Inr s2"
    and post: "fill_post (Suc (brk s)) (HeadOf (Suc (brk s))) (map snd bs) ?s1 s2"
    by auto
  show ?thesis
    unfolding SingleLinkedList_copy_def Let_def b beg loop fill sum.case option.case
    by (rule finish_construction [OF assms(1) len refl post])
qed

subsection \<open>Insertion and removal at a cursor\<close>

lemma list_at_unique: "list_at s l zs \<Longrightarrow> list_at s l ws \<Longrightarrow> zs = ws"
  by (auto dest!: list_atD intro: cells_unique)

lemma cells_split:
  assumes "cells h p zs nullptr" and "i < length zs"
  shows "\<exists>n. cells h p (take i zs) (NodeAt (fst (zs ! i))) \<and> h (fst (zs ! i)) = Some n \<and>
             node_value n = snd (zs ! i) \<and> cells h (next_node n) (drop (Suc i) zs) nullptr"
proof -
  have zs: "zs = take i zs @ zs ! i # drop (Suc i) zs"
    using assms(2) by (simp add: id_take_nth_drop)
  obtain a x where ax: "zs ! i = (a, x)" by (cases "zs ! i")
  from assms(1) obtain r where "cells h p (take i zs) r" "cells h r ((a, x) # drop (Suc i) zs) nullptr"
    by (subst (asm) zs) (auto simp: cells_append ax)
  then show ?thesis
    by (auto simp: ax split: option.splits)
qed

lemma InsertAfter_node_result:
  assumes "lists s this = Some L" and "nodes s a = Some n" and "a \<noteq> brk s"
  shows "InsertAfter this (NodeAt a) x s =
     Inr (NodeAt (brk s),
          s\<lparr>nodes := (nodes s)(brk s \<mapsto> \<lparr>node_value = x, next_node = next_node n\<rparr>,
                              a \<mapsto> n\<lparr>next_node := NodeAt (brk s)\<rparr>),
            brk := Suc (brk s),
            lists := (lists s)(this \<mapsto> L\<lparr>size_f := size_f L + 1\<rparr>)\<rparr>)"
  using assms by (simp add: InsertAfter_def load_def new_Node_def store_next_def inc_size_def)

lemma EraseAfter_node_result:
  assumes "lists s this = Some L" and "nodes s a = Some n" and "next_node n = NodeAt b"
    and "nodes s b = Some m" and "a \<noteq> b"
  shows "EraseAfter this (NodeAt a) s =
     Inr (next_node m,
          s\<lparr>nodes := (nodes s)(a \<mapsto> n\<lparr>next_node := next_node m\<rparr>, b := None),
            lists := (lists s)(this \<mapsto> L\<lparr>size_f := size_f L - 1\<rparr>)\<rparr>)"
  using assms by (simp add: EraseAfter_def load_def delete_Node_def store_next_def dec_size_def)

lemma InsertAfter_effect:
  assumes ok: "heap_ok s" and at: "list_at s this zs" and i: "i \<le> length zs"
    and room: "length zs + 1 < 2 ^ 64"
  shows "\<exists>s'. InsertAfter this (cursor this zs i) x s = Inr (NodeAt (brk s), s') \<and>
           list_at s' this (take i zs @ (brk s, x) # drop i zs) \<and> touches s s' this zs \<and>
           brk s' = Suc (brk s)"
proof -
  from at obtain L where L: "lists s this = Some L"
    "cells (nodes s) (next_node (head_f L)) zs nullptr" "unat (size_f L) = length zs"
    by (auto dest: list_atD)
  have fresh: "brk s \<notin> fst ` set zs"
    using cells_fresh [OF ok L(2)] by auto
  have size: "unat (size_f L + 1) = Suc (length zs)"
    using room L(3) by (simp add: unat_inc)
  show ?thesis
  proof (cases i)
    case 0
    let ?s' = "s\<lparr>nodes := (nodes s)(brk s \<mapsto> \<lparr>node_value = x, next_node = next_node (head_f L)\<rparr>),
            brk := Suc (brk s),
            lists := (lists s)(this \<mapsto>
               L\<lparr>head_f := (head_f L)\<lparr>next_node := NodeAt (brk s)\<rparr>, size_f := size_f L + 1\<rparr>)\<rparr>"
    have "list_at ?s' this ((brk s, x) # zs)"
      using L(2) fresh size by (simp add: list_at_def)
    moreover have "touches s ?s' this zs"
      using ok L(1) by (auto simp: touches_def heap_ok_def less_Suc_eq)
    ultimately show ?thesis
      using 0 by (simp add: cursor_def InsertAfter_head_result [OF L(1)])
  next
    case (Suc j)
    with i have j: "j < length zs" by simp
    obtain a y where ay: "zs ! j = (a, y)" by (cases "zs ! j")
    from cells_split [OF L(2) j] ay obtain n where
      pre: "cells (nodes s) (next_node (head_f L)) (take j zs) (NodeAt a)"
      and n: "nodes s a = Some n" "node_value n = y"
      and post: "cells (nodes s) (next_node n) (drop (Suc j) zs) nullptr"
      by auto
    have zs: "zs = take j zs @ (a, y) # drop (Suc j) zs"
      using id_take_nth_drop [OF j] ay by simp
    have dist: "distinct (map fst zs)"
      using L(2) by (rule cells_distinct)
    have "distinct (map fst (take j zs @ (a, y) # drop (Suc j) zs))"
      unfolding ay [symmetric] id_take_nth_drop [OF j, symmetric] by (rule dist)
    then have a_pre: "a \<notin> fst ` set (take j zs)" and a_post: "a \<notin> fst ` set (drop (Suc j) zs)"
      by auto
    have f_pre: "brk s \<notin> fst ` set (take j zs)" and f_post: "brk s \<notin> fst ` set (drop (Suc j) zs)"
      using fresh by (auto dest: in_set_takeD in_set_dropD)
    have "a \<in> fst ` set zs"
      using nth_mem [OF j] ay by force
    with fresh have ne: "a \<noteq> brk s" by blast
    let ?h = "(nodes s)(brk s \<mapsto> \<lparr>node_value = x, next_node = next_node n\<rparr>,
                              a \<mapsto> n\<lparr>next_node := NodeAt (brk s)\<rparr>)"
    let ?s' = "s\<lparr>nodes := ?h, brk := Suc (brk s),
            lists := (lists s)(this \<mapsto> L\<lparr>size_f := size_f L + 1\<rparr>)\<rparr>"
    have "cells ?h (next_node (head_f L)) (take j zs) (NodeAt a)"
      using pre a_pre f_pre by simp
    moreover have "cells ?h (NodeAt a) ((a, y) # (brk s, x) # drop (Suc j) zs) nullptr"
      using post a_post f_post n ne by simp
    ultimately have "cells ?h (next_node (head_f L)) (take j zs @ (a, y) # (brk s, x) # drop (Suc j) zs) nullptr"
      unfolding cells_append by blast
    moreover have "take (Suc j) zs = take j zs @ [(a, y)]"
      using j ay by (simp add: take_Suc_conv_app_nth)
    ultimately have "list_at ?s' this (take i zs @ (brk s, x) # drop i zs)"
      using size j by (simp add: list_at_def Suc)
    moreover have "touches s ?s' this zs"
      using ok L(1) n(1) \<open>a \<in> fst ` set zs\<close> by (auto simp: touches_def heap_ok_def less_Suc_eq)
    moreover have "cursor this zs i = NodeAt a"
      using Suc ay by (simp add: cursor_def)
    ultimately show ?thesis
      by (simp add: InsertAfter_node_result [OF L(1) n(1) ne])
  qed
qed

lemma EraseAfter_effect:
  assumes ok: "heap_ok s" and at: "list_at s this zs" and i: "i < length zs"
  shows "\<exists>s' it. EraseAfter this (cursor this zs i) s = Inr (it, s') \<and>
           list_at s' this (take i zs @ drop (Suc i) zs) \<and> touches s s' this zs \<and>
           brk s' = brk s"
proof -
  from at obtain L where L: "lists s this = Some L"
    "cells (nodes s) (next_node (head_f L)) zs nullptr" "unat (size_f L) = length zs"
    by (auto dest: list_atD)
  obtain k where k: "length zs = Suc k"
    using i by (cases "length zs") auto
  have size: "unat (size_f L - 1) = k"
    using L(3) k by (simp add: unat_dec)
  have dist: "distinct (map fst zs)"
    using L(2) by (rule cells_distinct)
  obtain b w where bw: "zs ! i = (b, w)" by (cases "zs ! i")
  have b_in: "b \<in> fst ` set zs"
    using nth_mem [OF i] bw by force
  have "distinct (map fst (take i zs @ (b, w) # drop (Suc i) zs))"
    unfolding bw [symmetric] id_take_nth_drop [OF i, symmetric] by (rule dist)
  then have b_pre: "b \<notin> fst ` set (take i zs)" and b_post: "b \<notin> fst ` set (drop (Suc i) zs)"
    by auto
  from cells_split [OF L(2) i] bw obtain m where
    pre: "cells (nodes s) (next_node (head_f L)) (take i zs) (NodeAt b)"
    and m: "nodes s b = Some m"
    and post: "cells (nodes s) (next_node m) (drop (Suc i) zs) nullptr"
    by auto
  show ?thesis
  proof (cases i)
    case 0
    with pre have hd: "next_node (head_f L) = NodeAt b" by simp
    let ?s' = "s\<lparr>lists := (lists s)(this \<mapsto>
               L\<lparr>head_f := (head_f L)\<lparr>next_node := next_node m\<rparr>, size_f := size_f L - 1\<rparr>),
            nodes := (nodes s)(b := None)\<rparr>"
    have "list_at ?s' this (drop (Suc i) zs)"
      using post b_post size k 0 by (simp add: list_at_def)
    moreover have "touches s ?s' this zs"
      using ok b_in L(1) by (auto simp: touches_def heap_ok_def)
    ultimately show ?thesis
      using 0 by (simp add: cursor_def EraseAfter_head_result [OF L(1) hd m])
  next
    case (Suc j)
    with i have j: "j < length zs" by simp
    obtain a y where ay: "zs ! j = (a, y)" by (cases "zs ! j")
    have a_in: "a \<in> fst ` set zs"
      using nth_mem [OF j] ay by force
    from cells_split [OF L(2) j] ay obtain n where
      pre': "cells (nodes s) (next_node (head_f L)) (take j zs) (NodeAt a)"
      and n: "nodes s a = Some n" "node_value n = y"
      and post': "cells (nodes s) (next_node n) (drop (Suc j) zs) nullptr"
      by auto
    have "drop (Suc j) zs = (b, w) # drop (Suc i) zs"
      using i bw Suc Cons_nth_drop_Suc [of i zs] by simp
    with post' have nb: "next_node n = NodeAt b" by simp
    have tk: "take i zs = take j zs @ [(a, y)]"
      using j ay Suc by (simp add: take_Suc_conv_app_nth)
    have "distinct (map fst (take j zs @ (a, y) # drop (Suc j) zs))"
      unfolding ay [symmetric] id_take_nth_drop [OF j, symmetric] by (rule dist)
    then have a_pre: "a \<notin> fst ` set (take j zs)" and a_post: "a \<notin> fst ` set (drop (Suc j) zs)"
      by auto
    from a_post \<open>drop (Suc j) zs = (b, w) # drop (Suc i) zs\<close>
    have ne: "a \<noteq> b" and a_post': "a \<notin> fst ` set (drop (Suc i) zs)"
      by auto
    from b_pre tk have b_pre': "b \<notin> fst ` set (take j zs)" by auto
    let ?h = "(nodes s)(a \<mapsto> n\<lparr>next_node := next_node m\<rparr>, b := None)"
    let ?s' = "s\<lparr>nodes := ?h, lists := (lists s)(this \<mapsto> L\<lparr>size_f := size_f L - 1\<rparr>)\<rparr>"
    have "cells ?h (next_node (head_f L)) (take j zs) (NodeAt a)"
      using pre' a_pre b_pre' by simp
    moreover have "cells ?h (NodeAt a) ((a, y) # drop (Suc i) zs) nullptr"
      using post a_post' b_post n ne by simp
    ultimately have "cells ?h (next_node (head_f L)) (take i zs @ drop (Suc i) zs) nullptr"
      unfolding tk cells_append by auto
    then have "list_at ?s' this (take i zs @ drop (Suc i) zs)"
      using size k i by (simp add: list_at_def)
    moreover have "touches s ?s' this zs"
      using ok a_in b_in n(1) L(1) by (auto simp: touches_def heap_ok_def)
    moreover have "cursor this zs i = NodeAt a"
      using Suc ay by (simp add: cursor_def)
    ultimately show ?thesis
      by (simp add: EraseAfter_node_result [OF L(1) n(1) nb m ne])
  qed
qed

subsection \<open>Preservation of the invariant\<close>

lemma list_at_alive: "list_at s l zs \<Longrightarrow> lists s l \<noteq> None"
  by (auto dest: list_atD)

lemma list_at_below:
  "heap_ok s \<Longrightarrow> list_at s l zs \<Longrightarrow> a \<in> fst ` set zs \<Longrightarrow> a < brk s"
  by (auto dest!: list_atD intro: cells_fresh)

lemma state_inv_step:
  fixes T N :: "addr set"
  assumes inv: "state_inv s" and ok': "heap_ok s'"
    and frame_l: "\<And>l. l \<notin> T \<Longrightarrow> lists s' l = lists s l"
    and frame_n: "\<And>a. a < brk s \<Longrightarrow> a \<notin> N \<Longrightarrow> nodes s' a = nodes s a"
    and new_wf: "\<And>l. l \<in> T \<Longrightarrow> lists s' l \<noteq> None \<Longrightarrow>
        \<exists>zs'. list_at s' l zs' \<and> fst ` set zs' \<subseteq> N \<union> {a. brk s \<le> a}"
    and new_sep: "\<And>l l' zs zs'. l \<in> T \<Longrightarrow> l' \<in> T \<Longrightarrow> l \<noteq> l' \<Longrightarrow>
        list_at s' l zs \<Longrightarrow> list_at s' l' zs' \<Longrightarrow> fst ` set zs \<inter> fst ` set zs' = {}"
    and N_owned: "\<And>l ws. l \<notin> T \<Longrightarrow> list_at s l ws \<Longrightarrow> fst ` set ws \<inter> N = {}"
  shows "state_inv s'"
proof -
  from inv have ok: "heap_ok s"
    and wf: "\<And>l. lists s l \<noteq> None \<Longrightarrow> \<exists>zs. list_at s l zs"
    and sep: "\<And>l l' zs zs'. l \<noteq> l' \<Longrightarrow> list_at s l zs \<Longrightarrow> list_at s l' zs' \<Longrightarrow>
         fst ` set zs \<inter> fst ` set zs' = {}"
    unfolding state_inv_def by blast+
  have old: "list_at s' l ws" if "l \<notin> T" and "list_at s l ws" for l ws
  proof (rule list_at_frame [OF that(2) frame_l [OF that(1)]])
    fix a assume a: "a \<in> fst ` set ws"
    with N_owned [OF that] have "a \<notin> N" by blast
    with list_at_below [OF ok that(2) a] show "nodes s' a = nodes s a"
      by (rule frame_n)
  qed
  have kept: "\<exists>ws. list_at s l ws \<and> zs = ws" if "l \<notin> T" and "list_at s' l zs" for l zs
  proof -
    have "lists s l \<noteq> None"
      using frame_l [OF that(1)] list_at_alive [OF that(2)] by simp
    then obtain ws where ws: "list_at s l ws" using wf by blast
    from old [OF that(1) ws] that(2) have "zs = ws" by (rule list_at_unique [rotated])
    with ws show ?thesis by blast
  qed
  have wf': "\<exists>zs. list_at s' l zs" if "lists s' l \<noteq> None" for l
  proof (cases "l \<in> T")
    case True
    from new_wf [OF True that] show ?thesis by blast
  next
    case False
    with that have "lists s l \<noteq> None" using frame_l by simp
    then obtain ws where "list_at s l ws" using wf by blast
    with False show ?thesis using old by blast
  qed
  have mixed: "fst ` set zs \<inter> fst ` set zs' = {}"
    if "l \<in> T" "l' \<notin> T" "list_at s' l zs" "list_at s' l' zs'" for l l' zs zs'
  proof -
    from kept [OF that(2,4)] have old': "list_at s l' zs'" by blast
    from new_wf [OF that(1) list_at_alive [OF that(3)]] list_at_unique [OF that(3)]
    have sub: "fst ` set zs \<subseteq> N \<union> {a. brk s \<le> a}" by blast
    have "a \<notin> N \<and> a < brk s" if "a \<in> fst ` set zs'" for a
      using N_owned [OF \<open>l' \<notin> T\<close> old'] list_at_below [OF ok old' that] that by blast
    with sub show ?thesis by fastforce
  qed
  have sep': "fst ` set zs \<inter> fst ` set zs' = {}"
    if "l \<noteq> l'" "list_at s' l zs" "list_at s' l' zs'" for l l' zs zs'
  proof (cases "l \<in> T"; cases "l' \<in> T")
    assume "l \<in> T" "l' \<in> T"
    then show ?thesis using that by (rule new_sep)
  next
    assume "l \<in> T" "l' \<notin> T"
    then show ?thesis using that(2,3) by (rule mixed)
  next
    assume "l \<notin> T" "l' \<in> T"
    then have "fst ` set zs' \<inter> fst ` set zs = {}" using that(2,3) by (intro mixed)
    then show ?thesis by blast
  next
    assume "l \<notin> T" "l' \<notin> T"
    with kept that(2,3) have "list_at s l zs" "list_at s l' zs'" by blast+
    with that(1) show ?thesis by (rule sep)
  qed
  from ok' wf' sep' show ?thesis
    unfolding state_inv_def by blast
qed

lemma state_invD:
  assumes "state_inv s"
  shows "heap_ok s"
    and "\<And>l. lists s l \<noteq> None \<Longrightarrow> \<exists>zs. list_at s l zs"
    and "\<And>l l' zs zs'. l \<noteq> l' \<Longrightarrow> list_at s l zs \<Longrightarrow> list_at s l' zs' \<Longrightarrow>
         fst ` set zs \<inter> fst ` set zs' = {}"
  using assms unfolding state_inv_def by blast+

lemma inv_touch:
  assumes inv: "state_inv s" and at: "list_at s l zs" and at': "list_at s' l zs'"
    and t: "touches s s' l zs" and sub: "fst ` set zs' \<subseteq> fst ` set zs \<union> {a. brk s \<le> a}"
  shows "state_inv s'"
proof (rule state_inv_step [OF inv, where T = "{l}" and N = "fst ` set zs"])
  show "heap_ok s'" using t by (simp add: touches_def)
  show "lists s' l' = lists s l'" if "l' \<notin> {l}" for l'
    using t that by (simp add: touches_def)
  show "nodes s' a = nodes s a" if "a < brk s" "a \<notin> fst ` set zs" for a
    using t that by (simp add: touches_def)
  show "\<exists>zs'. list_at s' l' zs' \<and> fst ` set zs' \<subseteq> fst ` set zs \<union> {a. brk s \<le> a}"
    if "l' \<in> {l}" for l'
    using that at' sub by auto
  show "fst ` set ws \<inter> fst ` set ws' = {}"
    if "l1 \<in> {l}" "l2 \<in> {l}" "l1 \<noteq> l2" for l1 l2 and ws ws' :: "(addr \<times> 'a) list"
    using that by simp
  show "fst ` set ws \<inter> fst ` set zs = {}" if "l' \<notin> {l}" "list_at s l' ws" for l' ws
    using state_invD(3) [OF inv _ that(2) at] that(1) by simp
qed

lemma touch_keeps:
  assumes inv: "state_inv s" and at: "list_at s l zs" and t: "touches s s' l zs"
    and other: "l' \<noteq> l" "list_at s l' ws"
  shows "list_at s' l' ws"
proof (rule list_at_frame [OF other(2)])
  show "lists s' l' = lists s l'" using t other(1) by (simp add: touches_def)
  fix a assume a: "a \<in> fst ` set ws"
  from state_invD(3) [OF inv other(1) other(2) at] a have "a \<notin> fst ` set zs" by blast
  with list_at_below [OF state_invD(1) [OF inv] other(2) a] t
  show "nodes s' a = nodes s a" by (simp add: touches_def)
qed

lemma created_keeps:
  assumes ok: "heap_ok s" and c: "created s s' l zs" and at: "list_at s l' ws"
  shows "list_at s' l' ws"
proof (rule list_at_frame [OF at])
  from at ok have "l' < brk s" by (auto simp: heap_ok_def dest!: list_atD)
  with c show "lists s' l' = lists s l'" by (simp add: created_def)
  fix a assume "a \<in> fst ` set ws"
  from list_at_below [OF ok at this] c show "nodes s' a = nodes s a"
    by (simp add: created_def)
qed

lemma inv_created:
  assumes inv: "state_inv s" and c: "created s s' l zs"
  shows "state_inv s'"
proof (rule state_inv_step [OF inv, where T = "{l}" and N = "{}"])
  show "heap_ok s'" using c by (simp add: created_def)
  show "lists s' l' = lists s l'" if "l' \<notin> {l}" for l'
    using c that by (simp add: created_def)
  show "nodes s' a = nodes s a" if "a < brk s" for a
    using c that by (simp add: created_def)
  show "\<exists>zs'. list_at s' l' zs' \<and> fst ` set zs' \<subseteq> {} \<union> {a. brk s \<le> a}"
    if "l' \<in> {l}" for l'
    using that c by (auto simp: created_def)
  show "fst ` set ws \<inter> fst ` set ws' = {}"
    if "l1 \<in> {l}" "l2 \<in> {l}" "l1 \<noteq> l2" for l1 l2 and ws ws' :: "(addr \<times> 'a) list"
    using that by simp
  show "fst ` set ws \<inter> {} = {}" for ws :: "(addr \<times> 'a) list"
    by simp
qed

lemma swap_effect:
  assumes "list_at s this zs" and "list_at s other ws"
  shows "\<exists>s'. swap this other s = Inr s' \<and> list_at s' this ws \<and> list_at s' other zs \<and>
           nodes s' = nodes s \<and> brk s' = brk s \<and>
           (\<forall>l. l \<noteq> this \<longrightarrow> l \<noteq> other \<longrightarrow> lists s' l = lists s l)"
proof -
  from assms obtain L R where L: "lists s this = Some L"
    "cells (nodes s) (next_node (head_f L)) zs nullptr" "unat (size_f L) = length zs"
    and R: "lists s other = Some R"
    "cells (nodes s) (next_node (head_f R)) ws nullptr" "unat (size_f R) = length ws"
    by (auto dest!: list_atD)
  show ?thesis
  proof (cases "this = other")
    case True
    with L R have RL: "R = L" by simp
    have "lists s other = Some L" using L(1) True by simp
    note sw = swap_result [OF this this]
    from L R show ?thesis
      unfolding True RL by (simp add: sw list_at_def)
  next
    case False
    with L R show ?thesis
      by (simp add: swap_result [OF L(1) R(1)] list_at_def)
  qed
qed

lemma inv_swap:
  assumes inv: "state_inv s" and at: "list_at s this zs" "list_at s other ws"
    and sw: "swap this other s = Inr s'"
  shows "state_inv s'"
proof -
  from swap_effect [OF at] sw have eff: "list_at s' this ws" "list_at s' other zs"
    "nodes s' = nodes s" "brk s' = brk s"
    "\<And>l. l \<noteq> this \<Longrightarrow> l \<noteq> other \<Longrightarrow> lists s' l = lists s l"
    by auto
  have ok: "heap_ok s" using inv by (rule state_invD)
  show ?thesis
  proof (rule state_inv_step [OF inv, where T = "{this, other}" and N = "fst ` set zs \<union> fst ` set ws"])
    show "heap_ok s'"
      using ok eff(3,4) sw at
      by (auto simp: heap_ok_def swap_def split: option.splits if_splits)
    show "lists s' l = lists s l" if "l \<notin> {this, other}" for l
      using that eff(5) by simp
    show "nodes s' a = nodes s a" for a
      using eff(3) by simp
    show "\<exists>zs'. list_at s' l zs' \<and> fst ` set zs' \<subseteq> fst ` set zs \<union> fst ` set ws \<union> {a. brk s \<le> a}"
      if "l \<in> {this, other}" for l
      using that eff(1,2) by auto
    show "fst ` set us \<inter> fst ` set vs = {}"
      if "l1 \<in> {this, other}" "l2 \<in> {this, other}" "l1 \<noteq> l2"
        "list_at s' l1 us" "list_at s' l2 vs" for l1 l2 us vs
    proof -
      from that(1,2,3) have ne: "this \<noteq> other" by auto
      from state_invD(3) [OF inv ne at] have d: "fst ` set zs \<inter> fst ` set ws = {}" .
      from that consider "l1 = this" "l2 = other" | "l1 = other" "l2 = this" by auto
      then show ?thesis
      proof cases
        case 1
        with that eff have "us = ws" "vs = zs" by (auto intro: list_at_unique)
        with d show ?thesis by blast
      next
        case 2
        with that eff have "us = zs" "vs = ws" by (auto intro: list_at_unique)
        with d show ?thesis by blast
      qed
    qed
    show "fst ` set us \<inter> (fst ` set zs \<union> fst ` set ws) = {}"
      if "l \<notin> {this, other}" "list_at s l us" for l us
      using state_invD(3) [OF inv _ that(2) at(1)] state_invD(3) [OF inv _ that(2) at(2)] that(1)
      by auto
  qed
qed

lemma destroy_list:
  assumes inv: "state_inv s" and at: "list_at s l zs"
  shows "\<exists>s'. destroy l s = Some (Inr s') \<and> state_inv s' \<and> brk s' = brk s \<and>
           lists s' = (lists s)(l := None) \<and>
           nodes s' = (\<lambda>a. if a \<in> fst ` set zs then None else nodes s a)"
proof -
  from at obtain L where L: "lists s l = Some L"
    "cells (nodes s) (next_node (head_f L)) zs nullptr"
    by (auto dest: list_atD)
  from destroy_effect [OF L] obtain s' where d: "destroy l s = Some (Inr s')"
    and eff: "brk s' = brk s" "lists s' = (lists s)(l := None)"
      "nodes s' = (\<lambda>a. if a \<in> fst ` set zs then None else nodes s a)"
    by blast
  have ok: "heap_ok s" using inv by (rule state_invD)
  have "state_inv s'"
  proof (rule state_inv_step [OF inv, where T = "{l}" and N = "fst ` set zs"])
    show "heap_ok s'"
      using ok eff by (auto simp: heap_ok_def split: if_splits)
    show "lists s' l' = lists s l'" if "l' \<notin> {l}" for l'
      using that eff(2) by simp
    show "nodes s' a = nodes s a" if "a \<notin> fst ` set zs" for a
      using that eff(3) by simp
    show "\<exists>zs'. list_at s' l' zs' \<and> fst ` set zs' \<subseteq> fst ` set zs \<union> {a. brk s \<le> a}"
      if "l' \<in> {l}" "lists s' l' \<noteq> None" for l'
      using that eff(2) by simp
    show "fst ` set us \<inter> fst ` set vs = {}"
      if "l1 \<in> {l}" "l2 \<in> {l}" "l1 \<noteq> l2" for l1 l2 and us vs :: "(addr \<times> 'a) list"
      using that by simp
    show "fst ` set us \<inter> fst ` set zs = {}" if "l' \<notin> {l}" "list_at s l' us" for l' us
      using state_invD(3) [OF inv _ that(2) at] that(1) by simp
  qed
  with d eff show ?thesis by blast
qed

lemma Clear_list:
  assumes inv: "state_inv s" and at: "list_at s l zs"
  shows "\<exists>s'. Clear l s = Some (Inr s') \<and> list_at s' l [] \<and> touches s s' l zs \<and> brk s' = brk s"
proof -
  from at obtain L where L: "lists s l = Some L"
    "cells (nodes s) (next_node (head_f L)) zs nullptr"
    by (auto dest: list_atD)
  from Clear_effect [OF L] obtain s' where d: "Clear l s = Some (Inr s')"
    and eff: "brk s' = brk s"
      "lists s' = (lists s)(l \<mapsto> L\<lparr>head_f := (head_f L)\<lparr>next_node := nullptr\<rparr>, size_f := 0\<rparr>)"
      "nodes s' = (\<lambda>a. if a \<in> fst ` set zs then None else nodes s a)"
    by blast
  have ok: "heap_ok s" using inv by (rule state_invD)
  have "list_at s' l []"
    using eff by (simp add: list_at_def)
  moreover have "touches s s' l zs"
    using ok eff L(1) by (auto simp: touches_def heap_ok_def split: if_splits)
  ultimately show ?thesis using d eff(1) by blast
qed

lemma default_created:
  assumes "heap_ok s"
  shows "created s (new_object dflt s) (brk s) []"
  using assms heap_ok_above(2) [OF assms, of "brk s"]
  by (auto simp: created_def new_object_def list_at_def heap_ok_def less_Suc_eq)

lemma PushFront_effect:
  assumes "heap_ok s" and "list_at s this zs" and "length zs + 1 < 2 ^ 64"
  shows "\<exists>s'. PushFront this x s = Inr s' \<and> list_at s' this ((brk s, x) # zs) \<and>
           touches s s' this zs \<and> brk s' = Suc (brk s)"
proof -
  from assms(2) obtain L where L: "lists s this = Some L"
    by (auto dest: list_atD)
  from InsertAfter_effect [OF assms(1,2) _ assms(3), of 0 x]
  show ?thesis
    by (simp add: cursor_def InsertAfter_head_result [OF L] PushFront_result [OF L])
qed

lemma PopFront_effect:
  assumes "heap_ok s" and "list_at s this (z # zs)"
  shows "\<exists>s'. PopFront this s = Inr s' \<and> list_at s' this zs \<and>
           touches s s' this (z # zs) \<and> brk s' = brk s"
proof -
  obtain a x where z: "z = (a, x)" by (cases z)
  from assms(2) z obtain L n where L: "lists s this = Some L"
    "next_node (head_f L) = NodeAt a" "nodes s a = Some n"
    by (auto dest!: list_atD split: option.splits)
  from EraseAfter_effect [OF assms, of 0]
  show ?thesis
    by (simp add: cursor_def EraseAfter_head_result [OF L] PopFront_result [OF L])
qed

lemma assign_effect:
  assumes inv: "state_inv s" and at: "list_at s this zs" and src: "list_at s rhs bs"
    and ne: "this \<noteq> rhs"
  shows "\<exists>s' cs. assign dflt this rhs s = Some (Inr s') \<and> state_inv s' \<and>
           list_at s' this cs \<and> map snd cs = map snd bs \<and>
           (\<forall>a \<in> fst ` set cs. brk s \<le> a) \<and>
           (\<forall>l ws. l \<noteq> this \<longrightarrow> list_at s l ws \<longrightarrow> list_at s' l ws)"
proof -
  have ok: "heap_ok s" using inv by (rule state_invD)
  let ?c = "brk s"
  let ?cs = "new_cells (Suc (Suc (brk s))) (map snd bs)"
  from SingleLinkedList_copy_effect [OF ok src, of dflt] obtain s1 where
    copy: "SingleLinkedList_copy dflt rhs s = Some (Inr (?c, s1))"
    and cr: "created s s1 ?c ?cs"
    by blast
  have inv1: "state_inv s1" using inv cr by (rule inv_created)
  have c1: "list_at s1 ?c ?cs" and fresh: "\<forall>a \<in> fst ` set ?cs. brk s \<le> a"
    using cr by (simp_all add: created_def)
  have this1: "list_at s1 this zs" using ok cr at by (rule created_keeps)
  have below: "\<And>l ws. list_at s l ws \<Longrightarrow> l \<noteq> ?c"
    using ok by (auto simp: heap_ok_def dest!: list_atD)
  from swap_effect [OF this1 c1] obtain s2 where
    sw: "swap this ?c s1 = Inr s2" and this2: "list_at s2 this ?cs" and c2: "list_at s2 ?c zs"
    and nodes2: "nodes s2 = nodes s1"
    and lists2: "\<And>l. l \<noteq> this \<Longrightarrow> l \<noteq> ?c \<Longrightarrow> lists s2 l = lists s1 l"
    by blast
  have inv2: "state_inv s2" using inv1 this1 c1 sw by (rule inv_swap)
  from destroy_list [OF inv2 c2] obtain s3 where
    d: "destroy ?c s2 = Some (Inr s3)" and inv3: "state_inv s3"
    and lists3: "lists s3 = (lists s2)(?c := None)"
    and nodes3: "nodes s3 = (\<lambda>a. if a \<in> fst ` set zs then None else nodes s2 a)"
    by blast
  have res: "assign dflt this rhs s = Some (Inr s3)"
    using ne copy sw d by (simp add: assign_def)
  have zs_old: "\<And>a. a \<in> fst ` set zs \<Longrightarrow> a < brk s"
    using list_at_below [OF ok at] .
  have this3: "list_at s3 this ?cs"
  proof (rule list_at_frame [OF this2])
    show "lists s3 this = lists s2 this"
      using lists3 below [OF at] by simp
    fix a assume "a \<in> fst ` set ?cs"
    with fresh zs_old have "a \<notin> fst ` set zs" by fastforce
    then show "nodes s3 a = nodes s2 a" by (simp add: nodes3)
  qed
  have keep: "list_at s3 l ws" if "l \<noteq> this" "list_at s l ws" for l ws
  proof -
    have lc: "l \<noteq> ?c" using that(2) by (rule below)
    have l1: "list_at s1 l ws" using ok cr that(2) by (rule created_keeps)
    have l2: "list_at s2 l ws"
      by (rule list_at_frame [OF l1 lists2 [OF that(1) lc]]) (simp add: nodes2)
    show ?thesis
    proof (rule list_at_frame [OF l2])
      show "lists s3 l = lists s2 l" using lists3 lc by simp
      fix a assume "a \<in> fst ` set ws"
      with state_invD(3) [OF inv that(1) that(2) at] have "a \<notin> fst ` set zs" by blast
      then show "nodes s3 a = nodes s2 a" by (simp add: nodes3)
    qed
  qed
  from res inv3 this3 fresh keep show ?thesis
    by (intro exI [of _ s3] exI [of _ ?cs]) simp
qed

subsection \<open>The concrete stores and the mutations\<close>

lemma size_ok_iff: "size_ok s l = (\<exists>zs. list_at s l zs)"
  by (auto simp: size_ok_def list_at_def list_begin_def GetSize_def split: option.splits)

lemma empty_state_inv: "state_inv empty_state"
  by (simp add: state_inv_def heap_ok_def empty_state_def list_at_def)

lemma ex_alive: "lists ex_state l \<noteq> None \<Longrightarrow> l \<in> {0, 1, 2, 3, 4, 5}"
  by (simp add: ex_state_def split: if_splits)

lemma ex_chain_at:
  assumes "lists ex_state l \<noteq> None"
  shows "list_at ex_state l (ex_chain l)"
proof -
  from ex_alive [OF assms]
  consider "l = 0" | "l = 1" | "l = 2" | "l = 3" | "l = 4" | "l = 5" by auto
  then show ?thesis
    using ex_lists by cases (simp_all add: ex_chain_def)
qed

lemma ex_chain_disjoint:
  "l \<in> {0, 1, 2, 3, 4, 5} \<Longrightarrow> l' \<in> {0, 1, 2, 3, 4, 5} \<Longrightarrow> l \<noteq> l' \<Longrightarrow>
   fst ` set (ex_chain l) \<inter> fst ` set (ex_chain l') = {}"
  by (auto simp: ex_chain_def)

lemma ex_state_inv: "state_inv ex_state"
proof -
  have "fst ` set zs \<inter> fst ` set zs' = {}"
    if "l \<noteq> l'" "list_at ex_state l zs" "list_at ex_state l' zs'" for l l' zs zs'
  proof -
    from that have alive: "lists ex_state l \<noteq> None" "lists ex_state l' \<noteq> None"
      by (auto dest: list_at_alive)
    then have "zs = ex_chain l" "zs' = ex_chain l'"
      using that by (auto intro: list_at_unique ex_chain_at)
    with ex_chain_disjoint [OF ex_alive ex_alive, OF alive that(1)] show ?thesis by simp
  qed
  with ex_heap_ok ex_chain_at show ?thesis
    unfolding state_inv_def by blast
qed

lemma mutate_effect:
  assumes inv: "state_inv s" and at: "list_at s l zs" and adm: "admissible l zs m"
  shows "\<exists>s' zs'. mutate l m s = Inr s' \<and> list_at s' l zs' \<and> touches s s' l zs \<and>
           fst ` set zs' \<subseteq> fst ` set zs \<union> {a. brk s \<le> a}"
proof -
  have ok: "heap_ok s" using inv by (rule state_invD)
  show ?thesis
  proof (cases m)
    case (Push x)
    with adm PushFront_effect [OF ok at, of x] show ?thesis by fastforce
  next
    case Pop
    with adm obtain z zs0 where zs: "zs = z # zs0" by (cases zs) auto
    from PopFront_effect [OF ok at [unfolded zs]] Pop zs show ?thesis by fastforce
  next
    case (Insert pos x)
    with adm have room: "length zs + 1 < 2 ^ 64"
      and "pos \<in> cursor l zs ` {0..<Suc (length zs)}"
      by (simp_all del: upt_Suc)
    then obtain i where i: "i \<le> length zs" "pos = cursor l zs i"
      by (auto simp: less_Suc_eq_le)
    from InsertAfter_effect [OF ok at i(1) room, of x] obtain s' where
      "InsertAfter l pos x s = Inr (NodeAt (brk s), s')"
      "list_at s' l (take i zs @ (brk s, x) # drop i zs)" "touches s s' l zs"
      using i(2) by blast
    moreover have "fst ` set (take i zs @ (brk s, x) # drop i zs) \<subseteq> fst ` set zs \<union> {a. brk s \<le> a}"
      by (auto dest: in_set_takeD in_set_dropD)
    ultimately show ?thesis using Insert by fastforce
  next
    case (Erase pos)
    with adm have "pos \<in> cursor l zs ` {0..<length zs}"
      by simp
    then obtain i where i: "i < length zs" "pos = cursor l zs i"
      by auto
    from EraseAfter_effect [OF ok at i(1)] obtain s' it where
      "EraseAfter l pos s = Inr (it, s')"
      "list_at s' l (take i zs @ drop (Suc i) zs)" "touches s s' l zs"
      using i(2) by blast
    moreover have "fst ` set (take i zs @ drop (Suc i) zs) \<subseteq> fst ` set zs \<union> {a. brk s \<le> a}"
      by (auto dest: in_set_takeD in_set_dropD)
    ultimately show ?thesis using Erase by fastforce
  qed
qed

lemma GetSize_same_length:
  assumes "list_at s A zs" and "list_at s B ws" and "length zs = length ws"
  shows "GetSize s A = GetSize s B"
  using assms by (auto simp: GetSize_def word_unat_eq_iff dest!: list_atD)

lemma mutations_keep:
  assumes "state_inv s" and "list_at s A zs" and "B \<noteq> A" and "steps_ok s B ms"
  shows "\<exists>s'. run_mutations B ms s = Inr s' \<and> state_inv s' \<and> list_at s' A zs \<and>
           elements s' A = Some (Inr (map snd zs))"
  using assms
proof (induction ms arbitrary: s)
  case Nil
  then show ?case by (simp add: elements_list)
next
  case (Cons m ms)
  from Cons.prems(4) obtain ws s1 where B: "list_at s B ws" and adm: "admissible B ws m"
    and step: "mutate B m s = Inr s1" and rest: "steps_ok s1 B ms"
    by (auto split: sum.splits)
  from mutate_effect [OF Cons.prems(1) B adm] step obtain ws' where
    B': "list_at s1 B ws'" and t: "touches s s1 B ws"
    and sub: "fst ` set ws' \<subseteq> fst ` set ws \<union> {a. brk s \<le> a}"
    by auto
  have inv1: "state_inv s1"
    using Cons.prems(1) B B' t sub by (rule inv_touch)
  have A1: "list_at s1 A zs"
    using Cons.prems(1) B t Cons.prems(3) [symmetric] Cons.prems(2) by (rule touch_keeps)
  from Cons.IH [OF inv1 A1 Cons.prems(3) rest] step show ?case
    by simp
qed

lemma steps_ok_push_pop:
  assumes "state_inv s" and "list_at s B ws" and "length ws + 1 < 2 ^ 64"
  shows "steps_ok s B [Push x, Pop]"
proof -
  have ok: "heap_ok s" using assms(1) by (rule state_invD)
  from PushFront_effect [OF ok assms(2,3), of x] obtain s1 where
    push: "PushFront B x s = Inr s1" and B1: "list_at s1 B ((brk s, x) # ws)"
    and t: "touches s s1 B ws"
    by blast
  have ok1: "heap_ok s1" using t by (simp add: touches_def)
  from PopFront_effect [OF ok1 B1] obtain s2 where pop: "PopFront B s1 = Inr s2"
    by blast
  have "steps_ok s1 B [Pop]"
    using B1 pop by (auto intro!: exI [of _ "(brk s, x) # ws"])
  with assms(2,3) push show ?thesis
    by (auto intro!: exI [of _ ws])
qed

section \<open>The claims\<close>

text \<open>
  C1.  The claim: \<open>operator==\<close> is true exactly when the two lists have the same
  length and equal elements in order, so that \<open>List{1,2} != List{1,2,3}\<close>.  The code
  calls the three-iterator \<open>std::equal\<close> and checks no length.  On the lists 1 2 (at 0)
  and 1 2 3 (at 1) of \<open>ex_state\<close>, \<open>operator==\<close> returns true and \<open>operator!=\<close>
  false; with the operands exchanged the comparison reads through the null end cursor
  of the shorter list.
\<close>

theorem operator_eq_ignores_length:
  "elements ex_state 0 = Some (Inr [1, 2]) \<and>
   elements ex_state 1 = Some (Inr [1, 2, 3]) \<and>
   operator_eq ex_state 0 1 = Some (Inr True) \<and>
   operator_ne ex_state 0 1 = Some (Inr False) \<and>
   operator_eq ex_state 1 0 = Some (Inl NullDeref)"
  using elements_list [OF ex_lists(1)] elements_list [OF ex_lists(2)]
    operator_eq_lists [OF ex_lists(1) ex_lists(2)] operator_eq_lists [OF ex_lists(2) ex_lists(1)]
  by (simp add: operator_ne_def negate_def)

text \<open>
  C2.  Constructing a list from a sequence \<open>S\<close> (an initializer list of fewer than
  \<open>2^64\<close> values, as \<open>size_t\<close> can count) returns a list whose \<open>GetSize()\<close> is the
  length of \<open>S\<close> and whose traversal from \<open>begin()\<close> to \<open>end()\<close> yields \<open>S\<close>.  The same
  holds for the other instance of \<open>FillLinkedList_\<close>, the construction from a list
  that holds \<open>S\<close>.
\<close>

theorem construction_from_sequence:
  assumes "heap_ok s" and "length S < 2 ^ 64"
  shows "(\<exists>this s' n. SingleLinkedList_init dflt S s = Some (Inr (this, s')) \<and>
            GetSize s' this = Inr n \<and> unat n = length S \<and>
            elements s' this = Some (Inr S)) \<and>
         (\<forall>other zs. list_at s other zs \<longrightarrow> map snd zs = S \<longrightarrow>
            (\<exists>this s' n. SingleLinkedList_copy dflt other s = Some (Inr (this, s')) \<and>
               GetSize s' this = Inr n \<and> unat n = length S \<and>
               elements s' this = Some (Inr S)))"
proof (intro conjI allI impI)
  from SingleLinkedList_init_effect [OF assms, of dflt] obtain s' where
    run: "SingleLinkedList_init dflt S s = Some (Inr (brk s, s'))"
    and at: "list_at s' (brk s) (new_cells (Suc (Suc (brk s))) S)"
    by (auto simp: created_def)
  from GetSize_list [OF at] elements_list [OF at] run
  show "\<exists>this s' n. SingleLinkedList_init dflt S s = Some (Inr (this, s')) \<and>
            GetSize s' this = Inr n \<and> unat n = length S \<and> elements s' this = Some (Inr S)"
    by auto
next
  fix other zs
  assume src: "list_at s other zs" and S: "map snd zs = S"
  from SingleLinkedList_copy_effect [OF assms(1) src, of dflt] S obtain s' where
    run: "SingleLinkedList_copy dflt other s = Some (Inr (brk s, s'))"
    and at: "list_at s' (brk s) (new_cells (Suc (Suc (brk s))) S)"
    by (auto simp: created_def)
  from GetSize_list [OF at] elements_list [OF at] run
  show "\<exists>this s' n. SingleLinkedList_copy dflt other s = Some (Inr (this, s')) \<and>
            GetSize s' this = Inr n \<and> unat n = length S \<and> elements s' this = Some (Inr S)"
    by auto
qed

theorem construction_from_sequence_witness:
  "heap_ok (empty_state :: int state) \<and> length [10, 20, 30 :: int] < 2 ^ 64 \<and>
   (\<exists>this s' n. SingleLinkedList_init 0 [10, 20, 30 :: int] empty_state = Some (Inr (this, s')) \<and>
      GetSize s' this = Inr n \<and> unat n = 3 \<and> elements s' this = Some (Inr [10, 20, 30])) \<and>
   heap_ok ex_state \<and> list_at ex_state 1 [(12, 1), (13, 2), (14, 3)] \<and>
   (\<exists>this s' n. SingleLinkedList_copy 0 1 ex_state = Some (Inr (this, s')) \<and>
      GetSize s' this = Inr n \<and> unat n = 3 \<and> elements s' this = Some (Inr [1, 2, 3]))"
proof -
  have e: "heap_ok (empty_state :: int state)"
    by (simp add: heap_ok_def empty_state_def)
  have l: "length [10, 20, 30 :: int] < 2 ^ 64" "length [1, 2, 3 :: int] < 2 ^ 64"
    by simp_all
  from construction_from_sequence [OF e l(1), of 0, THEN conjunct1]
    construction_from_sequence [OF ex_heap_ok l(2), of 0, THEN conjunct2, rule_format,
      OF ex_lists(2)]
    e ex_heap_ok ex_lists(2)
  show ?thesis by (simp add: numeral_3_eq_3)
qed

text \<open>
  C3.  For lists over a linearly ordered element type, \<open>operator<\<close> returns whether
  the elements of the left list come before those of the right list in the
  lexicographic order \<open>lexord\<close> of the elements' order.
\<close>

theorem operator_lt_lexicographic:
  fixes s :: "('a::linorder) state"
  assumes "list_at s A zs" and "list_at s B ws"
  shows "operator_lt s A B = Some (Inr ((map snd zs, map snd ws) \<in> lexord {(x, y). x < y}))"
  using assms by (rule operator_lt_lists)

theorem operator_lt_lexicographic_witness:
  "list_at ex_state 0 [(10, 1), (11, 2)] \<and> list_at ex_state 3 [(16, 1), (17, 3)] \<and>
   list_at ex_state 4 [(18, 1)] \<and> list_at ex_state 5 [] \<and>
   operator_lt ex_state 0 3 = Some (Inr True) \<and>
   operator_lt ex_state 4 0 = Some (Inr True) \<and>
   operator_lt ex_state 5 4 = Some (Inr True) \<and>
   operator_lt ex_state 3 0 = Some (Inr False)"
  using operator_lt_lexicographic [OF ex_lists(1) ex_lists(4)]
    operator_lt_lexicographic [OF ex_lists(5) ex_lists(1)]
    operator_lt_lexicographic [OF ex_lists(6) ex_lists(5)]
    operator_lt_lexicographic [OF ex_lists(4) ex_lists(1)]
    ex_lists
  by simp

text \<open>
  C4.  On a well-formed list with room for one more element, \<open>InsertAfter\<close> at
  \<open>before_begin()\<close> (or \<open>cbefore_begin()\<close>) and \<open>PushFront\<close> succeed and leave the very
  same store; in it the list holds the new value followed by the old elements, and
  its size is one more.
\<close>

theorem InsertAfter_before_begin_PushFront:
  assumes "heap_ok s" and "list_at s this zs" and "length zs + 1 < 2 ^ 64"
  shows "\<exists>s' n. InsertAfter this (before_begin this) x s = Inr (NodeAt (brk s), s') \<and>
           InsertAfter this (cbefore_begin this) x s = Inr (NodeAt (brk s), s') \<and>
           PushFront this x s = Inr s' \<and>
           elements s' this = Some (Inr (x # map snd zs)) \<and>
           GetSize s' this = Inr n \<and> unat n = Suc (length zs)"
proof -
  from assms(2) obtain L where L: "lists s this = Some L"
    by (auto dest: list_atD)
  obtain s' where push: "PushFront this x s = Inr s'"
    by (simp add: PushFront_result [OF L])
  then have ins: "InsertAfter this (HeadOf this) x s = Inr (NodeAt (brk s), s')"
    by (simp add: PushFront_result [OF L] InsertAfter_head_result [OF L])
  have at: "list_at s' this ((brk s, x) # zs)"
    using assms push by (rule PushFront_list_at)
  from GetSize_list [OF at] elements_list [OF at] push ins show ?thesis
    by (auto simp: before_begin_def cbefore_begin_def)
qed

theorem InsertAfter_before_begin_PushFront_witness:
  "heap_ok ex_state \<and> list_at ex_state 0 [(10, 1), (11, 2)] \<and>
   (\<exists>s' n. InsertAfter 0 (before_begin 0) 7 ex_state = Inr (NodeAt 19, s') \<and>
      PushFront 0 7 ex_state = Inr s' \<and>
      elements s' 0 = Some (Inr [7, 1, 2]) \<and> GetSize s' 0 = Inr n \<and> unat n = 3)"
proof -
  have "length [(10::addr, 1::int), (11, 2)] + 1 < 2 ^ 64" by simp
  from InsertAfter_before_begin_PushFront [OF ex_heap_ok ex_lists(1) this, of 7]
  show ?thesis
    using ex_heap_ok ex_lists(1) by (auto simp: ex_state_def)
qed

text \<open>
  C5.  On a well-formed list that is not empty, \<open>EraseAfter\<close> at \<open>before_begin()\<close> and
  \<open>PopFront\<close> succeed and leave the very same store; in it the list holds the old
  elements without the first, and its size is one less.
\<close>

theorem EraseAfter_before_begin_PopFront:
  assumes "list_at s this (z # zs)"
  shows "\<exists>s' it n. EraseAfter this (before_begin this) s = Inr (it, s') \<and>
           PopFront this s = Inr s' \<and>
           list_begin s' this = Inr it \<and>
           elements s' this = Some (Inr (map snd zs)) \<and>
           GetSize s' this = Inr n \<and> unat n = length zs"
proof -
  obtain a x where z: "z = (a, x)" by (cases z)
  from assms z obtain L n where L: "lists s this = Some L"
    "next_node (head_f L) = NodeAt a" "nodes s a = Some n"
    by (auto dest!: list_atD split: option.splits)
  obtain s' where pop: "PopFront this s = Inr s'"
    by (simp add: PopFront_result [OF L])
  then have erase: "EraseAfter this (HeadOf this) s = Inr (next_node n, s')"
    by (simp add: PopFront_result [OF L] EraseAfter_head_result [OF L])
  have at: "list_at s' this zs"
    using assms pop unfolding z by (rule PopFront_list_at)
  have "list_begin s' this = Inr (next_node n)"
    using pop by (auto simp: PopFront_result [OF L] list_begin_def)
  with GetSize_list [OF at] elements_list [OF at] pop erase show ?thesis
    by (auto simp: before_begin_def)
qed

theorem EraseAfter_before_begin_PopFront_witness:
  "list_at ex_state 1 [(12, 1), (13, 2), (14, 3)] \<and>
   (\<exists>s' it n. EraseAfter 1 (before_begin 1) ex_state = Inr (it, s') \<and>
      PopFront 1 ex_state = Inr s' \<and>
      elements s' 1 = Some (Inr [2, 3]) \<and> GetSize s' 1 = Inr n \<and> unat n = 2)"
  using EraseAfter_before_begin_PopFront [OF ex_lists(2)] ex_lists(2)
  by auto

text \<open>
  C6.  The invariant \<open>state_inv\<close> of a store: every list object that is alive has a
  chain of nodes from the link of its sentinel to null, its count \<open>GetSize()\<close> is the
  number of nodes of that chain (\<open>size_ok\<close>), and no two lists share a node.  It holds
  in the empty store and every operation preserves it: the three constructors,
  \<open>PushFront\<close> and \<open>InsertAfter\<close> at a cursor of the list (the sentinel or one of its
  nodes) while the count is below the greatest \<open>size_t\<close>, \<open>PopFront\<close> on a list that
  is not empty, \<open>EraseAfter\<close> at a cursor that has a successor, \<open>Clear\<close>, \<open>swap\<close> and
  copy assignment.  Each of them returns.
\<close>

theorem size_invariant_preserved:
  assumes "state_inv s"
  shows "(\<forall>l. lists s l \<noteq> None \<longrightarrow> size_ok s l) \<and>
    state_inv (snd (SingleLinkedList_default dflt s)) \<and>
    (\<forall>vs. length vs < 2 ^ 64 \<longrightarrow>
       (\<exists>l s'. SingleLinkedList_init dflt vs s = Some (Inr (l, s')) \<and> state_inv s')) \<and>
    (\<forall>other. lists s other \<noteq> None \<longrightarrow>
       (\<exists>l s'. SingleLinkedList_copy dflt other s = Some (Inr (l, s')) \<and> state_inv s')) \<and>
    (\<forall>l zs x. list_at s l zs \<longrightarrow> length zs + 1 < 2 ^ 64 \<longrightarrow>
       (\<exists>s'. PushFront l x s = Inr s' \<and> state_inv s')) \<and>
    (\<forall>l zs. list_at s l zs \<longrightarrow> zs \<noteq> [] \<longrightarrow>
       (\<exists>s'. PopFront l s = Inr s' \<and> state_inv s')) \<and>
    (\<forall>l zs i x. list_at s l zs \<longrightarrow> length zs + 1 < 2 ^ 64 \<longrightarrow> i \<le> length zs \<longrightarrow>
       (\<exists>it s'. InsertAfter l (cursor l zs i) x s = Inr (it, s') \<and> state_inv s')) \<and>
    (\<forall>l zs i. list_at s l zs \<longrightarrow> i < length zs \<longrightarrow>
       (\<exists>it s'. EraseAfter l (cursor l zs i) s = Inr (it, s') \<and> state_inv s')) \<and>
    (\<forall>l. lists s l \<noteq> None \<longrightarrow>
       (\<exists>s'. Clear l s = Some (Inr s') \<and> state_inv s' \<and> GetSize s' l = Inr 0)) \<and>
    (\<forall>l r. lists s l \<noteq> None \<longrightarrow> lists s r \<noteq> None \<longrightarrow>
       (\<exists>s'. swap l r s = Inr s' \<and> state_inv s')) \<and>
    (\<forall>l r. lists s l \<noteq> None \<longrightarrow> lists s r \<noteq> None \<longrightarrow>
       (\<exists>s'. assign dflt l r s = Some (Inr s') \<and> state_inv s'))"
proof -
  note ok = state_invD(1) [OF assms] and wf = state_invD(2) [OF assms]
  have sized: "\<forall>l. lists s l \<noteq> None \<longrightarrow> size_ok s l"
    using wf by (simp add: size_ok_iff)
  have dflt: "state_inv (snd (SingleLinkedList_default dflt s))"
    using inv_created [OF assms default_created [OF ok]]
    by (simp add: SingleLinkedList_default_def)
  have init: "\<exists>l s'. SingleLinkedList_init dflt vs s = Some (Inr (l, s')) \<and> state_inv s'"
    if "length vs < 2 ^ 64" for vs
    using SingleLinkedList_init_effect [OF ok that, of dflt] inv_created [OF assms] by blast
  have copy: "\<exists>l s'. SingleLinkedList_copy dflt other s = Some (Inr (l, s')) \<and> state_inv s'"
    if "lists s other \<noteq> None" for other
  proof -
    from wf [OF that] obtain bs where "list_at s other bs" ..
    from SingleLinkedList_copy_effect [OF ok this, of dflt] inv_created [OF assms]
    show ?thesis by blast
  qed
  have push: "\<exists>s'. PushFront l x s = Inr s' \<and> state_inv s'"
    if "list_at s l zs" "length zs + 1 < 2 ^ 64" for l zs x
  proof -
    from PushFront_effect [OF ok that, of x] obtain s' where
      "PushFront l x s = Inr s'" "list_at s' l ((brk s, x) # zs)" "touches s s' l zs"
      by blast
    moreover from this have "state_inv s'"
      by (intro inv_touch [OF assms that(1)]) auto
    ultimately show ?thesis by blast
  qed
  have pop: "\<exists>s'. PopFront l s = Inr s' \<and> state_inv s'"
    if "list_at s l zs" "zs \<noteq> []" for l zs
  proof -
    from that(2) obtain z zs0 where zs: "zs = z # zs0" by (cases zs) auto
    from PopFront_effect [OF ok that(1) [unfolded zs]] obtain s' where
      "PopFront l s = Inr s'" "list_at s' l zs0" "touches s s' l (z # zs0)"
      by blast
    moreover from this have "state_inv s'"
      by (intro inv_touch [OF assms that(1) [unfolded zs]]) auto
    ultimately show ?thesis by blast
  qed
  have ins: "\<exists>it s'. InsertAfter l (cursor l zs i) x s = Inr (it, s') \<and> state_inv s'"
    if "list_at s l zs" "length zs + 1 < 2 ^ 64" "i \<le> length zs" for l zs i x
  proof -
    from InsertAfter_effect [OF ok that(1,3,2), of x] obtain s' where
      "InsertAfter l (cursor l zs i) x s = Inr (NodeAt (brk s), s')"
      "list_at s' l (take i zs @ (brk s, x) # drop i zs)" "touches s s' l zs"
      by blast
    moreover have "fst ` set (take i zs @ (brk s, x) # drop i zs) \<subseteq> fst ` set zs \<union> {a. brk s \<le> a}"
      by (auto dest: in_set_takeD in_set_dropD)
    ultimately have "state_inv s'"
      by (intro inv_touch [OF assms that(1)])
    with \<open>InsertAfter l (cursor l zs i) x s = Inr (NodeAt (brk s), s')\<close> show ?thesis by blast
  qed
  have erase: "\<exists>it s'. EraseAfter l (cursor l zs i) s = Inr (it, s') \<and> state_inv s'"
    if "list_at s l zs" "i < length zs" for l zs i
  proof -
    from EraseAfter_effect [OF ok that] obtain s' it where
      "EraseAfter l (cursor l zs i) s = Inr (it, s')"
      "list_at s' l (take i zs @ drop (Suc i) zs)" "touches s s' l zs"
      by blast
    moreover have "fst ` set (take i zs @ drop (Suc i) zs) \<subseteq> fst ` set zs \<union> {a. brk s \<le> a}"
      by (auto dest: in_set_takeD in_set_dropD)
    ultimately have "state_inv s'"
      by (intro inv_touch [OF assms that(1)])
    with \<open>EraseAfter l (cursor l zs i) s = Inr (it, s')\<close> show ?thesis by blast
  qed
  have clear: "\<exists>s'. Clear l s = Some (Inr s') \<and> state_inv s' \<and> GetSize s' l = Inr 0"
    if "lists s l \<noteq> None" for l
  proof -
    from wf [OF that] obtain zs where at: "list_at s l zs" ..
    from Clear_list [OF assms at] obtain s' where
      c: "Clear l s = Some (Inr s')" "list_at s' l []" "touches s s' l zs"
      by blast
    then have "state_inv s'"
      by (intro inv_touch [OF assms at]) auto
    moreover from GetSize_list [OF c(2)] have "GetSize s' l = Inr 0"
      by (auto simp: unat_eq_0)
    ultimately show ?thesis using c(1) by blast
  qed
  have sw: "\<exists>s'. swap l r s = Inr s' \<and> state_inv s'"
    if "lists s l \<noteq> None" "lists s r \<noteq> None" for l r
  proof -
    from wf [OF that(1)] wf [OF that(2)] obtain zs ws where
      at: "list_at s l zs" "list_at s r ws" by blast
    from swap_effect [OF at] inv_swap [OF assms at] show ?thesis by blast
  qed
  have asg: "\<exists>s'. assign dflt l r s = Some (Inr s') \<and> state_inv s'"
    if "lists s l \<noteq> None" "lists s r \<noteq> None" for l r
  proof (cases "l = r")
    case True
    with assms show ?thesis by (simp add: assign_def)
  next
    case False
    from wf [OF that(1)] wf [OF that(2)] obtain zs ws where
      at: "list_at s l zs" "list_at s r ws" by blast
    from assign_effect [OF assms at False, of dflt] show ?thesis by blast
  qed
  from sized dflt init copy push pop ins erase clear sw asg show ?thesis
    by blast
qed

theorem size_invariant_preserved_witness:
  "state_inv ex_state \<and> size_ok ex_state 1 \<and>
   state_inv (snd (SingleLinkedList_default 0 ex_state)) \<and>
   (\<exists>l s'. SingleLinkedList_init 0 [7, 8] ex_state = Some (Inr (l, s')) \<and> state_inv s') \<and>
   (\<exists>l s'. SingleLinkedList_copy 0 1 ex_state = Some (Inr (l, s')) \<and> state_inv s') \<and>
   (\<exists>s'. PushFront 0 7 ex_state = Inr s' \<and> state_inv s') \<and>
   (\<exists>s'. PopFront 1 ex_state = Inr s' \<and> state_inv s') \<and>
   (\<exists>it s'. InsertAfter 1 (NodeAt 13) 25 ex_state = Inr (it, s') \<and> state_inv s') \<and>
   (\<exists>it s'. EraseAfter 1 (NodeAt 13) ex_state = Inr (it, s') \<and> state_inv s') \<and>
   (\<exists>s'. Clear 3 ex_state = Some (Inr s') \<and> state_inv s' \<and> GetSize s' 3 = Inr 0) \<and>
   (\<exists>s'. swap 0 1 ex_state = Inr s' \<and> state_inv s') \<and>
   (\<exists>s'. assign 0 0 1 ex_state = Some (Inr s') \<and> state_inv s')"
proof -
  note T = size_invariant_preserved [OF ex_state_inv, of 0]
  note r1 = T [THEN conjunct2] note r2 = r1 [THEN conjunct2] note r3 = r2 [THEN conjunct2]
  note r4 = r3 [THEN conjunct2] note r5 = r4 [THEN conjunct2] note r6 = r5 [THEN conjunct2]
  note r7 = r6 [THEN conjunct2] note r8 = r7 [THEN conjunct2] note r9 = r8 [THEN conjunct2]
  have alive: "lists ex_state 0 \<noteq> None" "lists ex_state 1 \<noteq> None" "lists ex_state 3 \<noteq> None"
    using ex_lists by (auto dest: list_at_alive)
  have room: "length [(10 :: addr, 1 :: int), (11, 2)] + 1 < 2 ^ 64"
    "length [(12 :: addr, 1 :: int), (13, 2), (14, 3)] + 1 < 2 ^ 64"
    "length [7, 8 :: int] < 2 ^ 64"
    by simp_all
  have idx: "2 \<le> length [(12 :: addr, 1 :: int), (13, 2), (14, 3)]"
    "2 < length [(12 :: addr, 1 :: int), (13, 2), (14, 3)]"
    "[(12 :: addr, 1 :: int), (13, 2), (14, 3)] \<noteq> []"
    by simp_all
  have cur: "cursor 1 [(12 :: addr, 1 :: int), (13, 2), (14, 3)] 2 = NodeAt 13"
    by (simp add: cursor_def)
  note T [THEN conjunct1, rule_format, OF alive(2)]
    r1 [THEN conjunct1]
    r2 [THEN conjunct1, rule_format, OF room(3)]
    r3 [THEN conjunct1, rule_format, OF alive(2)]
    r4 [THEN conjunct1, rule_format, OF ex_lists(1) room(1), of 7]
    r5 [THEN conjunct1, rule_format, OF ex_lists(2) idx(3)]
    r6 [THEN conjunct1, rule_format, OF ex_lists(2) room(2) idx(1), of 25, unfolded cur]
    r7 [THEN conjunct1, rule_format, OF ex_lists(2) idx(2), unfolded cur]
    r8 [THEN conjunct1, rule_format, OF alive(3)]
    r9 [THEN conjunct1, rule_format, OF alive(1,2)]
    r9 [THEN conjunct2, rule_format, OF alive(1,2)]
  with ex_state_inv show ?thesis
    by (intro conjI)
qed

text \<open>
  C7.  In a store that satisfies the invariant, let \<open>A\<close> be a list with the cells
  \<open>zs\<close>.  The copy constructor returns a new list \<open>B\<close>, and copy assignment to
  another list \<open>B\<close> returns, with \<open>A\<close> unchanged, \<open>B\<close> holding the same values in
  the same order in nodes of its own, the same \<open>GetSize()\<close>, and \<open>A == B\<close> and
  \<open>B == A\<close> true.  From then on every sequence of admissible mutations
  (\<open>PushFront\<close>, \<open>PopFront\<close>, \<open>InsertAfter\<close>, \<open>EraseAfter\<close> at a cursor of the
  mutated list) of \<open>B\<close> returns and leaves the cells of \<open>A\<close>, and so its traversal, as
  they were, and every such sequence on \<open>A\<close> leaves \<open>B\<close> as it was.  The assignment
  \<open>A = A\<close> returns the store as it was.
\<close>

theorem copies_are_independent:
  assumes "state_inv s" and "list_at s A zs"
  shows "(\<exists>B s' ws. SingleLinkedList_copy dflt A s = Some (Inr (B, s')) \<and> state_inv s' \<and>
            B \<noteq> A \<and> list_at s' A zs \<and> list_at s' B ws \<and> map snd ws = map snd zs \<and>
            fst ` set ws \<inter> fst ` set zs = {} \<and> GetSize s' B = GetSize s' A \<and>
            operator_eq s' A B = Some (Inr True) \<and> operator_eq s' B A = Some (Inr True) \<and>
            (\<forall>ms. steps_ok s' B ms \<longrightarrow>
               (\<exists>s''. run_mutations B ms s' = Inr s'' \<and> list_at s'' A zs \<and>
                  elements s'' A = Some (Inr (map snd zs)))) \<and>
            (\<forall>ms. steps_ok s' A ms \<longrightarrow>
               (\<exists>s''. run_mutations A ms s' = Inr s'' \<and> list_at s'' B ws \<and>
                  elements s'' B = Some (Inr (map snd zs))))) \<and>
    (\<forall>B. lists s B \<noteq> None \<longrightarrow> B \<noteq> A \<longrightarrow>
       (\<exists>s' ws. assign dflt B A s = Some (Inr s') \<and> state_inv s' \<and>
          list_at s' A zs \<and> list_at s' B ws \<and> map snd ws = map snd zs \<and>
          fst ` set ws \<inter> fst ` set zs = {} \<and> GetSize s' B = GetSize s' A \<and>
          operator_eq s' A B = Some (Inr True) \<and> operator_eq s' B A = Some (Inr True) \<and>
          (\<forall>ms. steps_ok s' B ms \<longrightarrow>
             (\<exists>s''. run_mutations B ms s' = Inr s'' \<and> list_at s'' A zs \<and>
                elements s'' A = Some (Inr (map snd zs)))) \<and>
          (\<forall>ms. steps_ok s' A ms \<longrightarrow>
             (\<exists>s''. run_mutations A ms s' = Inr s'' \<and> list_at s'' B ws \<and>
                elements s'' B = Some (Inr (map snd zs)))))) \<and>
    assign dflt A A s = Some (Inr s)"
proof -
  note ok = state_invD(1) [OF assms(1)] and wf = state_invD(2) [OF assms(1)]
  have twins: "GetSize s' B = GetSize s' A \<and>
      operator_eq s' A B = Some (Inr True) \<and> operator_eq s' B A = Some (Inr True) \<and>
      (\<forall>ms. steps_ok s' B ms \<longrightarrow>
         (\<exists>s''. run_mutations B ms s' = Inr s'' \<and> list_at s'' A zs \<and>
            elements s'' A = Some (Inr (map snd zs)))) \<and>
      (\<forall>ms. steps_ok s' A ms \<longrightarrow>
         (\<exists>s''. run_mutations A ms s' = Inr s'' \<and> list_at s'' B ws \<and>
            elements s'' B = Some (Inr (map snd zs))))"
    if inv': "state_inv s'" and A': "list_at s' A zs" and B': "list_at s' B ws"
      and vals: "map snd ws = map snd zs" and ne: "B \<noteq> A"
    for s' :: "'a state" and B ws
  proof -
    from vals have "length ws = length zs" by (rule map_eq_imp_length_eq)
    from GetSize_same_length [OF B' A' this]
      operator_eq_lists [OF A' B'] operator_eq_lists [OF B' A'] vals
    have "GetSize s' B = GetSize s' A" "operator_eq s' A B = Some (Inr True)"
      "operator_eq s' B A = Some (Inr True)"
      by simp_all
    moreover have "\<exists>s''. run_mutations B ms s' = Inr s'' \<and> list_at s'' A zs \<and>
            elements s'' A = Some (Inr (map snd zs))" if "steps_ok s' B ms" for ms
      using mutations_keep [OF inv' A' ne that] by blast
    moreover have "\<exists>s''. run_mutations A ms s' = Inr s'' \<and> list_at s'' B ws \<and>
            elements s'' B = Some (Inr (map snd zs))" if "steps_ok s' A ms" for ms
      using mutations_keep [OF inv' B' ne [symmetric] that] vals by auto
    ultimately show ?thesis by blast
  qed
  have copy: "\<exists>B s' ws. SingleLinkedList_copy dflt A s = Some (Inr (B, s')) \<and> state_inv s' \<and>
            B \<noteq> A \<and> list_at s' A zs \<and> list_at s' B ws \<and> map snd ws = map snd zs \<and>
            fst ` set ws \<inter> fst ` set zs = {} \<and> GetSize s' B = GetSize s' A \<and>
            operator_eq s' A B = Some (Inr True) \<and> operator_eq s' B A = Some (Inr True) \<and>
            (\<forall>ms. steps_ok s' B ms \<longrightarrow>
               (\<exists>s''. run_mutations B ms s' = Inr s'' \<and> list_at s'' A zs \<and>
                  elements s'' A = Some (Inr (map snd zs)))) \<and>
            (\<forall>ms. steps_ok s' A ms \<longrightarrow>
               (\<exists>s''. run_mutations A ms s' = Inr s'' \<and> list_at s'' B ws \<and>
                  elements s'' B = Some (Inr (map snd zs))))"
  proof -
    let ?ws = "new_cells (Suc (Suc (brk s))) (map snd zs)"
    from SingleLinkedList_copy_effect [OF ok assms(2), of dflt] obtain s' where
      run: "SingleLinkedList_copy dflt A s = Some (Inr (brk s, s'))"
      and cr: "created s s' (brk s) ?ws"
      by blast
    have inv': "state_inv s'" using assms(1) cr by (rule inv_created)
    have A': "list_at s' A zs" using ok cr assms(2) by (rule created_keeps)
    have B': "list_at s' (brk s) ?ws" and fresh: "\<forall>a \<in> fst ` set ?ws. brk s \<le> a"
      using cr by (simp_all add: created_def)
    have ne: "brk s \<noteq> A"
      using ok assms(2) by (auto simp: heap_ok_def dest!: list_atD)
    have disj: "fst ` set ?ws \<inter> fst ` set zs = {}"
      using fresh list_at_below [OF ok assms(2)] by fastforce
    have vals: "map snd ?ws = map snd zs" by simp
    from run inv' ne A' B' disj twins [OF inv' A' B' vals ne] show ?thesis
      by (intro exI [of _ "brk s"] exI [of _ s'] exI [of _ ?ws]) simp
  qed
  have asg: "\<exists>s' ws. assign dflt B A s = Some (Inr s') \<and> state_inv s' \<and>
          list_at s' A zs \<and> list_at s' B ws \<and> map snd ws = map snd zs \<and>
          fst ` set ws \<inter> fst ` set zs = {} \<and> GetSize s' B = GetSize s' A \<and>
          operator_eq s' A B = Some (Inr True) \<and> operator_eq s' B A = Some (Inr True) \<and>
          (\<forall>ms. steps_ok s' B ms \<longrightarrow>
             (\<exists>s''. run_mutations B ms s' = Inr s'' \<and> list_at s'' A zs \<and>
                elements s'' A = Some (Inr (map snd zs)))) \<and>
          (\<forall>ms. steps_ok s' A ms \<longrightarrow>
             (\<exists>s''. run_mutations A ms s' = Inr s'' \<and> list_at s'' B ws \<and>
                elements s'' B = Some (Inr (map snd zs))))"
    if "lists s B \<noteq> None" "B \<noteq> A" for B
  proof -
    from wf [OF that(1)] obtain bs where B: "list_at s B bs" ..
    from assign_effect [OF assms(1) B assms(2) that(2), of dflt] obtain s' ws where
      run: "assign dflt B A s = Some (Inr s')" and inv': "state_inv s'"
      and B': "list_at s' B ws" and vals: "map snd ws = map snd zs"
      and fresh: "\<forall>a \<in> fst ` set ws. brk s \<le> a"
      and keep: "\<forall>l us. l \<noteq> B \<longrightarrow> list_at s l us \<longrightarrow> list_at s' l us"
      by blast
    have A': "list_at s' A zs"
      using keep [rule_format, OF that(2) [symmetric] assms(2)] .
    have disj: "fst ` set ws \<inter> fst ` set zs = {}"
      using fresh list_at_below [OF ok assms(2)] by fastforce
    from run inv' A' B' vals disj twins [OF inv' A' B' vals that(2)] show ?thesis
      by (intro exI [of _ s'] exI [of _ ws]) simp
  qed
  have self: "assign dflt A A s = Some (Inr s)"
    by (simp add: assign_def)
  from copy asg self show ?thesis by blast
qed

theorem copies_are_independent_witness:
  "state_inv ex_state \<and> list_at ex_state 1 [(12, 1), (13, 2), (14, 3)] \<and>
   (\<exists>B s' ws. SingleLinkedList_copy 0 1 ex_state = Some (Inr (B, s')) \<and>
      B \<noteq> 1 \<and> list_at s' B ws \<and> map snd ws = [1, 2, 3] \<and>
      operator_eq s' 1 B = Some (Inr True) \<and>
      steps_ok s' B [Push 9, Pop] \<and>
      (\<exists>s''. run_mutations B [Push 9, Pop] s' = Inr s'' \<and>
         elements s'' 1 = Some (Inr [1, 2, 3])) \<and>
      steps_ok s' 1 [Push 9, Pop] \<and>
      (\<exists>s''. run_mutations 1 [Push 9, Pop] s' = Inr s'' \<and>
         elements s'' B = Some (Inr [1, 2, 3]))) \<and>
   (\<exists>s' ws. assign 0 0 1 ex_state = Some (Inr s') \<and>
      list_at s' 0 ws \<and> map snd ws = [1, 2, 3] \<and>
      operator_eq s' 1 0 = Some (Inr True) \<and>
      steps_ok s' 0 [Push 9, Pop] \<and>
      (\<exists>s''. run_mutations 0 [Push 9, Pop] s' = Inr s'' \<and>
         elements s'' 1 = Some (Inr [1, 2, 3]))) \<and>
   assign 0 1 1 ex_state = Some (Inr ex_state)"
proof -
  note T = copies_are_independent [OF ex_state_inv ex_lists(2), of 0]
  have alive: "lists ex_state 0 \<noteq> None"
    using ex_lists(1) by (rule list_at_alive)
  have ne: "(0 :: addr) \<noteq> 1" by simp
  let ?zs = "[(12 :: addr, 1 :: int), (13, 2), (14, 3)]"
  have room: "length ws + 1 < 2 ^ 64" if "map snd ws = map snd ?zs" for ws :: "(addr \<times> int) list"
    using map_eq_imp_length_eq [OF that] by simp
  have room1: "length ?zs + 1 < 2 ^ 64" by simp
  from T [THEN conjunct1] obtain B s' ws where
    c: "SingleLinkedList_copy 0 1 ex_state = Some (Inr (B, s'))" "state_inv s'" "B \<noteq> 1"
      "list_at s' 1 ?zs" "list_at s' B ws" "map snd ws = map snd ?zs"
      "operator_eq s' 1 B = Some (Inr True)"
    and cB: "\<forall>ms. steps_ok s' B ms \<longrightarrow>
               (\<exists>s''. run_mutations B ms s' = Inr s'' \<and> list_at s'' 1 ?zs \<and>
                  elements s'' 1 = Some (Inr (map snd ?zs)))"
    and cA: "\<forall>ms. steps_ok s' 1 ms \<longrightarrow>
               (\<exists>s''. run_mutations 1 ms s' = Inr s'' \<and> list_at s'' B ws \<and>
                  elements s'' B = Some (Inr (map snd ?zs)))"
    by blast
  have okB: "steps_ok s' B [Push 9, Pop]"
    using c(2,5) room [OF c(6)] by (rule steps_ok_push_pop)
  have okA: "steps_ok s' 1 [Push 9, Pop]"
    using c(2,4) room1 by (rule steps_ok_push_pop)
  from cB [rule_format, OF okB] cA [rule_format, OF okA] c okB okA
  have first: "\<exists>B s' ws. SingleLinkedList_copy 0 1 ex_state = Some (Inr (B, s')) \<and>
      B \<noteq> 1 \<and> list_at s' B ws \<and> map snd ws = [1, 2, 3] \<and>
      operator_eq s' 1 B = Some (Inr True) \<and>
      steps_ok s' B [Push 9, Pop] \<and>
      (\<exists>s''. run_mutations B [Push 9, Pop] s' = Inr s'' \<and>
         elements s'' 1 = Some (Inr [1, 2, 3])) \<and>
      steps_ok s' 1 [Push 9, Pop] \<and>
      (\<exists>s''. run_mutations 1 [Push 9, Pop] s' = Inr s'' \<and>
         elements s'' B = Some (Inr [1, 2, 3]))"
    by (intro exI [of _ B] exI [of _ s'] exI [of _ ws]) auto
  from T [THEN conjunct2, THEN conjunct1, rule_format, OF alive ne] obtain t' us where
    a: "assign 0 0 1 ex_state = Some (Inr t')" "state_inv t'"
      "list_at t' 0 us" "map snd us = map snd ?zs"
      "operator_eq t' 1 0 = Some (Inr True)"
    and aB: "\<forall>ms. steps_ok t' 0 ms \<longrightarrow>
               (\<exists>s''. run_mutations 0 ms t' = Inr s'' \<and> list_at s'' 1 ?zs \<and>
                  elements s'' 1 = Some (Inr (map snd ?zs)))"
    by blast
  have ok0: "steps_ok t' 0 [Push 9, Pop]"
    using a(2,3) room [OF a(4)] by (rule steps_ok_push_pop)
  from aB [rule_format, OF ok0] a ok0
  have second: "\<exists>s' ws. assign 0 0 1 ex_state = Some (Inr s') \<and>
      list_at s' 0 ws \<and> map snd ws = [1, 2, 3] \<and>
      operator_eq s' 1 0 = Some (Inr True) \<and>
      steps_ok s' 0 [Push 9, Pop] \<and>
      (\<exists>s''. run_mutations 0 [Push 9, Pop] s' = Inr s'' \<and>
         elements s'' 1 = Some (Inr [1, 2, 3]))"
    by (intro exI [of _ t'] exI [of _ us]) auto
  have third: "assign 0 1 1 ex_state = Some (Inr ex_state)"
    using T by blast
  from ex_state_inv ex_lists(2) first second third show ?thesis
    by (intro conjI)
qed

text \<open>
  C8.  The derived operators, whatever the stores and the lists.  \<open>A != B\<close> returns
  the truth value \<open>b\<close> exactly when \<open>A == B\<close> returns \<open>\<not> b\<close>; \<open>A > B\<close> is \<open>B < A\<close>;
  \<open>A <= B\<close> returns \<open>b\<close> exactly when \<open>A > B\<close>, that is \<open>B < A\<close>, returns \<open>\<not> b\<close>; and
  \<open>A >= B\<close> returns \<open>b\<close> exactly when \<open>A < B\<close> returns \<open>\<not> b\<close>.  A derived operator
  fails with an error, or does not return, exactly when the comparison it is written
  in terms of does.
\<close>

theorem derived_operators:
  "((operator_ne s A B = Some (Inr b)) = (operator_eq s A B = Some (Inr (\<not> b)))) \<and>
   ((operator_ne s A B = Some (Inl e)) = (operator_eq s A B = Some (Inl e))) \<and>
   ((operator_ne s A B = None) = (operator_eq s A B = None)) \<and>
   operator_gt s A B = operator_lt s B A \<and>
   ((operator_le s A B = Some (Inr b)) = (operator_gt s A B = Some (Inr (\<not> b)))) \<and>
   ((operator_le s A B = Some (Inr b)) = (operator_lt s B A = Some (Inr (\<not> b)))) \<and>
   ((operator_le s A B = Some (Inl e)) = (operator_gt s A B = Some (Inl e))) \<and>
   ((operator_le s A B = None) = (operator_gt s A B = None)) \<and>
   ((operator_ge s A B = Some (Inr b)) = (operator_lt s A B = Some (Inr (\<not> b)))) \<and>
   ((operator_ge s A B = Some (Inl e)) = (operator_lt s A B = Some (Inl e))) \<and>
   ((operator_ge s A B = None) = (operator_lt s A B = None))"
  by (auto simp: operator_ne_def operator_gt_def operator_le_def operator_ge_def negate_def
           split: option.splits sum.splits)

text \<open>
  C9.  When \<open>GetSize\<close> of the left list is at most \<open>GetSize\<close> of the right list,
  \<open>operator==\<close> returns whether the elements of the left list are a prefix of those of
  the right list; a strict prefix compares equal to the longer list.
\<close>

theorem operator_eq_prefix:
  assumes "list_at s A zs" and "list_at s B ws"
    and "GetSize s A = Inr m" and "GetSize s B = Inr n" and "m \<le> n"
  shows "operator_eq s A B = Some (Inr (prefix (map snd zs) (map snd ws))) \<and>
         (strict_prefix (map snd zs) (map snd ws) \<longrightarrow> operator_eq s A B = Some (Inr True))"
proof -
  from assms have "length zs \<le> length ws"
    by (auto simp: GetSize_def word_le_nat_alt dest!: list_atD)
  then have "\<not> strict_prefix (map snd ws) (map snd zs)"
    by (auto dest: prefix_length_less)
  then show ?thesis
    by (auto simp: operator_eq_lists [OF assms(1,2)] strict_prefix_def)
qed

theorem operator_eq_prefix_witness:
  "list_at ex_state 0 [(10, 1), (11, 2)] \<and> list_at ex_state 1 [(12, 1), (13, 2), (14, 3)] \<and>
   GetSize ex_state 0 = Inr 2 \<and> GetSize ex_state 1 = Inr 3 \<and> (2 :: size_t) \<le> 3 \<and>
   strict_prefix [1, 2] [1, 2, 3 :: int] \<and>
   operator_eq ex_state 0 1 = Some (Inr True)"
proof -
  have sizes: "GetSize ex_state 0 = Inr 2" "GetSize ex_state 1 = Inr 3"
    by (simp_all add: GetSize_def ex_state_def mk_list_def)
  have le: "(2 :: size_t) \<le> 3" by simp
  from operator_eq_prefix [OF ex_lists(1) ex_lists(2) sizes le] sizes le ex_lists(1,2)
  show ?thesis by (simp add: strict_prefix_def)
qed




end
